theory Spec2Isabelle
  imports Main "HOL-Library.AList" "HOL-Library.Sublist"
begin

section \<open>Admission controller (src/slack-handler.ts)\<close>

text \<open>
  The concurrency control of \<^verbatim>\<open>SlackHandler\<close>: the fields \<^verbatim>\<open>activeSessions\<close>
  (a \<^verbatim>\<open>Set<string>\<close>), \<^verbatim>\<open>sessionQueues\<close> (a \<^verbatim>\<open>Map<string, QueuedMessage[]>\<close>,
  which iterates in insertion order and is therefore an association list),
  \<^verbatim>\<open>activeConcurrency\<close> and \<^verbatim>\<open>maxConcurrency\<close>.  Two parts of the run-time state
  that the program keeps outside its fields are made explicit: the callbacks handed to
  \<^verbatim>\<open>setImmediate\<close> that have not run yet (\<open>immediates\<close>, served first-in first-out
  by the event loop) and the activations of \<^verbatim>\<open>processClaudeQuery\<close> that have passed
  its first two statements and not yet reached its \<^verbatim>\<open>finally\<close> block
  (\<open>executions\<close>).  The field \<open>history\<close> records what the controller did, in order;
  no operation reads it.
\<close>

type_synonym session_key = string

datatype origin = Direct | Deferred

datatype 'm history_entry =
    MessageQueued session_key 'm
  | ProcessingNext session_key 'm
  | Entered origin session_key 'm
  | Released session_key 'm

record 'm controller =
  activeSessions :: "session_key set"
  sessionQueues :: "(session_key \<times> 'm list) list"
  activeConcurrency :: int
  maxConcurrency :: int
  immediates :: "(session_key \<times> 'm) list"
  executions :: "(session_key \<times> 'm) list"
  history :: "'m history_entry list"

definition initial :: "int \<Rightarrow> 'm controller" where
  "initial mx = \<lparr> activeSessions = {}, sessionQueues = [], activeConcurrency = 0,
     maxConcurrency = mx, immediates = [], executions = [], history = [] \<rparr>"

text \<open>\<^verbatim>\<open>this.sessionQueues.get(sessionKey) || []\<close>\<close>

definition queue_of :: "(session_key \<times> 'm list) list \<Rightarrow> session_key \<Rightarrow> 'm list" where
  "queue_of qs k = (case map_of qs k of None \<Rightarrow> [] | Some q \<Rightarrow> q)"

text \<open>
  \<^verbatim>\<open>enqueueMessage\<close>: push at the end of the key's array and store the array under the
  key; \<^verbatim>\<open>Map.set\<close> keeps the position of a key that is present and appends a new one.
\<close>

definition enqueueMessage :: "session_key \<Rightarrow> 'm \<Rightarrow> 'm controller \<Rightarrow> 'm controller" where
  "enqueueMessage sessionKey message s =
     s\<lparr> sessionQueues :=
          AList.update sessionKey (queue_of (sessionQueues s) sessionKey @ [message])
            (sessionQueues s),
        history := history s @ [MessageQueued sessionKey message] \<rparr>"

text \<open>
  The \<^verbatim>\<open>for (const [sessionKey, queue] of this.sessionQueues)\<close> loop of
  \<^verbatim>\<open>processNextInQueue\<close>.  It returns the queue map as the loop leaves it and the item
  handed to \<^verbatim>\<open>setImmediate\<close>, if any.  Both \<^verbatim>\<open>return\<close> statements end the loop.
\<close>

fun scan_queues ::
  "session_key set \<Rightarrow> int \<Rightarrow> int \<Rightarrow> (session_key \<times> 'm list) list
     \<Rightarrow> (session_key \<times> 'm list) list \<times> (session_key \<times> 'm) option" where
  "scan_queues act cnt mx [] = ([], None)"
| "scan_queues act cnt mx ((sessionKey, queue) # rest) =
     (if sessionKey \<notin> act \<and> queue \<noteq> [] then
        (if cnt \<ge> mx then ((sessionKey, queue) # rest, None)
         else (case queue of
                 next # queue' \<Rightarrow>
                   ((if queue' = [] then rest else (sessionKey, queue') # rest),
                    Some (sessionKey, next))
               | [] \<Rightarrow> ((sessionKey, queue) # rest, None)))
      else (case scan_queues act cnt mx rest of
              (rest', found) \<Rightarrow> ((sessionKey, queue) # rest', found)))"

definition processNextInQueue :: "'m controller \<Rightarrow> 'm controller" where
  "processNextInQueue s =
     (case scan_queues (activeSessions s) (activeConcurrency s) (maxConcurrency s)
             (sessionQueues s) of
        (qs', None) \<Rightarrow> s\<lparr> sessionQueues := qs' \<rparr>
      | (qs', Some (sessionKey, next)) \<Rightarrow>
          s\<lparr> sessionQueues := qs',
             immediates := immediates s @ [(sessionKey, next)],
             history := history s @ [ProcessingNext sessionKey next] \<rparr>)"

text \<open>
  \<^verbatim>\<open>processClaudeQuery\<close> up to its first \<^verbatim>\<open>await\<close>: the session is marked active and
  the counter incremented, unconditionally.  \<open>origin\<close> tells the two call sites apart
  (the end of \<^verbatim>\<open>handleMessage\<close>, the \<^verbatim>\<open>setImmediate\<close> callback).
\<close>

definition processClaudeQuery_enter ::
  "origin \<Rightarrow> session_key \<Rightarrow> 'm \<Rightarrow> 'm controller \<Rightarrow> 'm controller" where
  "processClaudeQuery_enter site sessionKey message s =
     s\<lparr> activeSessions := insert sessionKey (activeSessions s),
        activeConcurrency := activeConcurrency s + 1,
        executions := executions s @ [(sessionKey, message)],
        history := history s @ [Entered site sessionKey message] \<rparr>"

text \<open>
  The \<^verbatim>\<open>finally\<close> block of \<^verbatim>\<open>processClaudeQuery\<close>, reached on success, error and
  abort alike: release the slot, then \<^verbatim>\<open>processNextInQueue()\<close>.
\<close>

definition processClaudeQuery_finally ::
  "session_key \<Rightarrow> 'm \<Rightarrow> 'm controller \<Rightarrow> 'm controller" where
  "processClaudeQuery_finally sessionKey message s =
     processNextInQueue
       (s\<lparr> activeSessions := activeSessions s - {sessionKey},
           activeConcurrency := activeConcurrency s - 1,
           executions := remove1 (sessionKey, message) (executions s),
           history := history s @ [Released sessionKey message] \<rparr>)"

text \<open>
  The concurrency check at the end of \<^verbatim>\<open>handleMessage\<close>.  Nothing is awaited between
  the two tests and the first statements of \<^verbatim>\<open>processClaudeQuery\<close>, so the check and
  the admission are one step.
\<close>

datatype admission = Admitted | QueuedSessionBusy | QueuedServerBusy

definition handleMessage ::
  "session_key \<Rightarrow> 'm \<Rightarrow> 'm controller \<Rightarrow> admission \<times> 'm controller" where
  "handleMessage sessionKey message s =
     (if sessionKey \<in> activeSessions s then
        (QueuedSessionBusy, enqueueMessage sessionKey message s)
      else if activeConcurrency s \<ge> maxConcurrency s then
        (QueuedServerBusy, enqueueMessage sessionKey message s)
      else (Admitted, processClaudeQuery_enter Direct sessionKey message s))"

text \<open>
  The steps of the controller: a message reaches the concurrency check, the event loop
  runs the oldest \<^verbatim>\<open>setImmediate\<close> callback, an execution reaches its
  \<^verbatim>\<open>finally\<close> block.  A step that is not enabled gives \<open>None\<close>.
\<close>

datatype 'm event = Message session_key 'm | Immediate | Finished session_key 'm

definition step :: "'m event \<Rightarrow> 'm controller \<Rightarrow> 'm controller option" where
  "step e s =
     (case e of
        Message k m \<Rightarrow> Some (snd (handleMessage k m s))
      | Immediate \<Rightarrow>
          (case immediates s of
             [] \<Rightarrow> None
           | (k, m) # rest \<Rightarrow>
               Some (processClaudeQuery_enter Deferred k m (s\<lparr> immediates := rest \<rparr>)))
      | Finished k m \<Rightarrow>
          (if (k, m) \<in> set (executions s) then Some (processClaudeQuery_finally k m s)
           else None))"

fun run :: "'m event list \<Rightarrow> 'm controller \<Rightarrow> 'm controller option" where
  "run [] s = Some s"
| "run (e # es) s = (case step e s of None \<Rightarrow> None | Some s' \<Rightarrow> run es s')"

text \<open>
  The release as the specification words it: drop the key, decrement, take the first key
  of the queue map that is not active and has a non-empty queue and, if the counter is
  below the cap, remove the oldest item of that key, delete the key when its queue became
  empty, and hand the item to \<^verbatim>\<open>setImmediate\<close>.
\<close>

definition release_spec :: "session_key \<Rightarrow> 'm \<Rightarrow> 'm controller \<Rightarrow> 'm controller" where
  "release_spec key message s =
     (let act = activeSessions s - {key};
          cnt = activeConcurrency s - 1;
          s1 = s\<lparr> activeSessions := act, activeConcurrency := cnt,
                  executions := remove1 (key, message) (executions s),
                  history := history s @ [Released key message] \<rparr>
      in case find (\<lambda>(k, q). k \<notin> act \<and> q \<noteq> []) (sessionQueues s) of
           None \<Rightarrow> s1
         | Some (k, q) \<Rightarrow>
             if cnt < maxConcurrency s then
               s1\<lparr> sessionQueues :=
                     (if tl q = [] then AList.delete k (sessionQueues s)
                      else AList.update k (tl q) (sessionQueues s)),
                   immediates := immediates s @ [(k, hd q)],
                   history := history s @ [Released key message, ProcessingNext k (hd q)] \<rparr>
             else s1)"

text \<open>
  What the history says about one key: the messages queued for it, the queued messages
  taken out of its queue by \<^verbatim>\<open>processNextInQueue\<close>, and those whose deferred start
  has run, each in the order of occurrence; and the messages of the key whose
  \<^verbatim>\<open>setImmediate\<close> callback is still waiting.
\<close>

definition queued_msgs :: "session_key \<Rightarrow> 'm history_entry list \<Rightarrow> 'm list" where
  "queued_msgs k h =
     concat (map (\<lambda>e. case e of MessageQueued k' m \<Rightarrow> if k' = k then [m] else [] | _ \<Rightarrow> []) h)"

definition dispatched_msgs :: "session_key \<Rightarrow> 'm history_entry list \<Rightarrow> 'm list" where
  "dispatched_msgs k h =
     concat (map (\<lambda>e. case e of ProcessingNext k' m \<Rightarrow> if k' = k then [m] else [] | _ \<Rightarrow> []) h)"

definition deferred_starts :: "session_key \<Rightarrow> 'm history_entry list \<Rightarrow> 'm list" where
  "deferred_starts k h =
     concat (map (\<lambda>e. case e of Entered Deferred k' m \<Rightarrow> if k' = k then [m] else [] | _ \<Rightarrow> []) h)"

definition awaiting_start :: "session_key \<Rightarrow> (session_key \<times> 'm) list \<Rightarrow> 'm list" where
  "awaiting_start k ims = map snd (filter (\<lambda>(k', m). k' = k) ims)"

definition fifo_inv :: "'m controller \<Rightarrow> bool" where
  "fifo_inv s \<longleftrightarrow>
     distinct (map fst (sessionQueues s)) \<and>
     (\<forall>k. queued_msgs k (history s) =
            dispatched_msgs k (history s) @ queue_of (sessionQueues s) k) \<and>
     (\<forall>k. dispatched_msgs k (history s) =
            deferred_starts k (history s) @ awaiting_start k (immediates s))"

text \<open>
  A run in which nothing overtakes a deferred start: while a \<^verbatim>\<open>setImmediate\<close> callback
  is waiting, the next step is that callback.
\<close>

fun run_undisturbed :: "'m event list \<Rightarrow> 'm controller \<Rightarrow> 'm controller option" where
  "run_undisturbed [] s = Some s"
| "run_undisturbed (e # es) s =
     (if immediates s \<noteq> [] \<and> e \<noteq> Immediate then None
      else (case step e s of None \<Rightarrow> None | Some s' \<Rightarrow> run_undisturbed es s'))"

text \<open>
  What holds of the counters in such a run: the counter is the size of the active set,
  the active keys are the keys of the running executions, no key runs twice, and a free
  slot is left unused only when no inactive key has a queued message (a waiting start
  counting as the use of a slot).
\<close>

definition capacity_inv :: "'m controller \<Rightarrow> bool" where
  "capacity_inv s \<longleftrightarrow>
     finite (activeSessions s) \<and>
     int (card (activeSessions s)) = activeConcurrency s \<and>
     fst ` set (executions s) = activeSessions s \<and>
     distinct (map fst (executions s)) \<and>
     distinct (map fst (sessionQueues s)) \<and>
     (case immediates s of
        [] \<Rightarrow>
          activeConcurrency s \<le> maxConcurrency s \<and>
          (\<forall>k. k \<notin> activeSessions s \<and> queue_of (sessionQueues s) k \<noteq> [] \<longrightarrow>
                maxConcurrency s \<le> activeConcurrency s)
      | (k', m') # rest \<Rightarrow>
          rest = [] \<and> k' \<notin> activeSessions s \<and>
          activeConcurrency s < maxConcurrency s \<and>
          (\<forall>k. k \<noteq> k' \<and> k \<notin> activeSessions s \<and> queue_of (sessionQueues s) k \<noteq> [] \<longrightarrow>
                maxConcurrency s \<le> activeConcurrency s + 1))"

text \<open>
  More of the history of one key: all its messages in the order of their submission
  (queued or admitted at once), those whose execution was entered, those whose execution
  was released; and the messages of the key that are being executed.
\<close>

definition submitted_msgs :: "session_key \<Rightarrow> 'm history_entry list \<Rightarrow> 'm list" where
  "submitted_msgs k h =
     concat (map (\<lambda>e. case e of
                        MessageQueued k' m \<Rightarrow> if k' = k then [m] else []
                      | Entered Direct k' m \<Rightarrow> if k' = k then [m] else []
                      | _ \<Rightarrow> []) h)"

definition entered_msgs :: "session_key \<Rightarrow> 'm history_entry list \<Rightarrow> 'm list" where
  "entered_msgs k h =
     concat (map (\<lambda>e. case e of Entered site k' m \<Rightarrow> if k' = k then [m] else [] | _ \<Rightarrow> []) h)"

definition released_msgs :: "session_key \<Rightarrow> 'm history_entry list \<Rightarrow> 'm list" where
  "released_msgs k h =
     concat (map (\<lambda>e. case e of Released k' m \<Rightarrow> if k' = k then [m] else [] | _ \<Rightarrow> []) h)"

definition running_msgs :: "session_key \<Rightarrow> (session_key \<times> 'm) list \<Rightarrow> 'm list" where
  "running_msgs k exs = map snd (filter (\<lambda>(k', m). k' = k) exs)"

text \<open>Every message of a key is accounted for, in the order of submission.\<close>

definition order_inv :: "'m controller \<Rightarrow> bool" where
  "order_inv s \<longleftrightarrow>
     (\<forall>k. submitted_msgs k (history s) =
            entered_msgs k (history s) @ awaiting_start k (immediates s) @
            queue_of (sessionQueues s) k) \<and>
     (\<forall>k. entered_msgs k (history s) =
            released_msgs k (history s) @ running_msgs k (executions s))"

text \<open>A state in which session A runs and sessions B and A have queued messages.\<close>

definition busy_example :: "nat controller" where
  "busy_example =
     \<lparr> activeSessions = {''A''}, sessionQueues = [(''A'', [4]), (''B'', [2, 3])],
       activeConcurrency = 1, maxConcurrency = 1, immediates = [],
       executions = [(''A'', 1)], history = [] \<rparr>"


text \<open>
  Two interleavings in which a message is handled between a release and the deferred
  start that the release scheduled: with a message of a third session, and with a message
  of the session whose start is deferred.
\<close>

definition race_other_session :: "nat event list" where
  "race_other_session =
     [Message ''A'' 1, Message ''B'' 2, Finished ''A'' 1, Message ''C'' 3, Immediate]"

definition race_same_session :: "nat event list" where
  "race_same_session =
     [Message ''A'' 1, Message ''A'' 2, Finished ''A'' 1, Message ''A'' 3, Immediate]"

text \<open>
  An interleaving in which a second release runs between a release and the deferred start
  it scheduled, with a cap of two: sessions A and B run, two more messages of A are
  queued, A's execution ends and then B's, both deferred starts run, and the later of the
  two queued messages ends first.
\<close>

definition race_overlap :: "nat event list" where
  "race_overlap =
     [Message ''A'' 1, Message ''B'' 9, Message ''A'' 2, Message ''A'' 3, Finished ''A'' 1,
      Finished ''B'' 9, Immediate, Immediate]"

definition race_completion :: "nat event list" where
  "race_completion = race_overlap @ [Finished ''A'' 3, Finished ''A'' 2]"


section \<open>Path containment (src/permission-handler.ts)\<close>

text \<open>
  \<^verbatim>\<open>path.resolve\<close> and \<^verbatim>\<open>path.sep\<close> come from the Node.js library, in its POSIX
  variant: the argument is taken relative to the process's working directory unless it
  starts with a slash, empty and \<^verbatim>\<open>.\<close> segments are dropped, a \<^verbatim>\<open>..\<close> segment
  removes the segment before it (and nothing at the root), and the result is a slash
  followed by the remaining segments joined by slashes.  \<open>cwd\<close> is the value of
  \<^verbatim>\<open>process.cwd()\<close>, an absolute path.
\<close>

fun split_on :: "char \<Rightarrow> string \<Rightarrow> string list" where
  "split_on c [] = [[]]"
| "split_on c (x # xs) =
     (if x = c then [] # split_on c xs
      else (case split_on c xs of
              s # ss \<Rightarrow> (x # s) # ss
            | [] \<Rightarrow> [[x]]))"

definition normalize_step :: "string list \<Rightarrow> string \<Rightarrow> string list" where
  "normalize_step acc seg =
     (if seg = [] \<or> seg = ''.'' then acc
      else if seg = ''..'' then butlast acc
      else acc @ [seg])"

definition resolved_segments :: "string \<Rightarrow> string \<Rightarrow> string list" where
  "resolved_segments cwd p =
     foldl normalize_step []
       (split_on CHR ''/'' (if p \<noteq> [] \<and> hd p = CHR ''/'' then p else cwd @ ''/'' @ p))"

definition join_absolute :: "string list \<Rightarrow> string" where
  "join_absolute segs = (if segs = [] then ''/'' else concat (map (\<lambda>seg. CHR ''/'' # seg) segs))"

definition path_resolve :: "string \<Rightarrow> string \<Rightarrow> string" where
  "path_resolve cwd p = join_absolute (resolved_segments cwd p)"

definition path_sep :: string where
  "path_sep = ''/''"

text \<open>A JavaScript string is truthy when it is not empty; \<^verbatim>\<open>undefined\<close> is falsy.\<close>

definition truthy :: "string option \<Rightarrow> bool" where
  "truthy v = (case v of None \<Rightarrow> False | Some str \<Rightarrow> str \<noteq> [])"

text \<open>
  The tool input is \<^verbatim>\<open>any\<close> in the source; the handler reads two of its properties,
  which are strings when present.
\<close>

record tool_input =
  file_path :: "string option"
  path :: "string option"

definition extractToolTargetPath :: "string \<Rightarrow> tool_input \<Rightarrow> string option" where
  "extractToolTargetPath tool inp =
     (if truthy (file_path inp) then file_path inp
      else if truthy (path inp) then path inp
      else None)"

definition isPathWithinDirectory :: "string \<Rightarrow> string \<Rightarrow> string \<Rightarrow> bool" where
  "isPathWithinDirectory cwd targetPath directory =
     (let resolved = path_resolve cwd targetPath;
          dir = path_resolve cwd directory
      in resolved = dir \<or> prefix (dir @ path_sep) resolved)"


section \<open>Approval gate (src/permission-handler.ts)\<close>

text \<open>
  The state of \<^verbatim>\<open>PermissionHandler\<close>: the maps \<^verbatim>\<open>pending\<close> and
  \<^verbatim>\<open>approvedTools\<close> (association lists in insertion order, a tool set as a list
  without repetition), and what the handler has done to the outside: the HTTP responses
  it completed, the prompts it posted, the prompt updates it sent, the approval ids whose
  \<^verbatim>\<open>postMessage\<close> call has not returned yet, the timers it armed, and whether the
  listener is still open.  A response object is named by the number of its request.
\<close>

datatype behavior = Allow | Deny

record http_response =
  response_of :: nat
  statusCode :: nat
  payload :: "(behavior \<times> string) option"

record PendingPermission =
  httpRes :: nat
  channel :: string
  threadTs :: "string option"
  user :: "string option"
  toolName :: string
  input :: tool_input
  workingDirectory :: "string option"
  messageTs :: "string option"

record permission_request =
  tool_name :: string
  request_input :: tool_input
  request_channel :: string
  thread_ts :: "string option"
  request_user :: "string option"
  working_directory :: "string option"

record prompt =
  prompt_approval :: string
  prompt_channel :: string
  prompt_thread :: "string option"
  prompt_tool :: string
  prompt_directory :: "string option"

record gate =
  pending :: "(string \<times> PendingPermission) list"
  approvedTools :: "(string \<times> string list) list"
  responses :: "http_response list"
  prompts :: "prompt list"
  updates :: "(string \<times> string \<times> bool) list"
  posting :: "string list"
  timers :: "string list"
  listening :: bool

definition gate_initial :: gate where
  "gate_initial = \<lparr> pending = [], approvedTools = [], responses = [], prompts = [],
     updates = [], posting = [], timers = [], listening = True \<rparr>"

definition clearApprovals :: "gate \<Rightarrow> gate" where
  "clearApprovals s = s\<lparr> approvedTools := [] \<rparr>"

text \<open>\<^verbatim>\<open>res.writeHead(status); res.end(body)\<close> on the response object \<open>res\<close>.\<close>

definition write_response :: "nat \<Rightarrow> nat \<Rightarrow> (behavior \<times> string) option \<Rightarrow> gate \<Rightarrow> gate" where
  "write_response res status content s =
     s\<lparr> responses := responses s @
          [\<lparr> response_of = res, statusCode = status, payload = content \<rparr>] \<rparr>"

text \<open>
  \<^verbatim>\<open>isAutoApproved\<close> and \<^verbatim>\<open>rememberApproval\<close>.  The map is keyed by the working
  directory as the request spells it; only the containment test resolves paths.
\<close>

definition isAutoApproved :: "string \<Rightarrow> string \<Rightarrow> tool_input \<Rightarrow> string \<Rightarrow> gate \<Rightarrow> bool" where
  "isAutoApproved cwd tool inp workingDir s =
     (case map_of (approvedTools s) workingDir of
        None \<Rightarrow> False
      | Some approved \<Rightarrow>
          if tool \<notin> set approved then False
          else (let targetPath = extractToolTargetPath tool inp in
                if truthy targetPath then
                  (if \<not> isPathWithinDirectory cwd (the targetPath) workingDir then False
                   else True)
                else True))"

definition rememberApproval :: "string \<Rightarrow> string \<Rightarrow> gate \<Rightarrow> gate" where
  "rememberApproval tool workingDir s =
     (let tools = (case map_of (approvedTools s) workingDir of None \<Rightarrow> [] | Some ts \<Rightarrow> ts)
      in s\<lparr> approvedTools :=
              AList.update workingDir
                (if tool \<in> set tools then tools else tools @ [tool])
                (approvedTools s) \<rparr>)"

text \<open>
  \<^verbatim>\<open>respond\<close>: the record is deleted before the response is written.  The source
  catches and logs an exception of the write; the write is recorded here in either case.
\<close>

definition respond :: "string \<Rightarrow> bool \<Rightarrow> string \<Rightarrow> gate \<Rightarrow> gate" where
  "respond approvalId approved message s =
     (case map_of (pending s) approvalId of
        None \<Rightarrow> s
      | Some p \<Rightarrow>
          write_response (httpRes p) 200
            (Some (if approved then Allow else Deny, message))
            (s\<lparr> pending := AList.delete approvalId (pending s) \<rparr>))"

text \<open>
  \<^verbatim>\<open>resolveApproval\<close>, called for the two buttons: remember, update the prompt (not
  awaited, failures logged), respond.
\<close>

definition resolveApproval :: "string \<Rightarrow> bool \<Rightarrow> gate \<Rightarrow> gate" where
  "resolveApproval approvalId approved s =
     (case map_of (pending s) approvalId of
        None \<Rightarrow> s
      | Some p \<Rightarrow>
          (let s1 = (if approved \<and> truthy (workingDirectory p)
                     then rememberApproval (toolName p) (the (workingDirectory p)) s
                     else s);
               s2 = (if truthy (messageTs p)
                     then s1\<lparr> updates := updates s1 @
                                [(channel p, the (messageTs p), approved)] \<rparr>
                     else s1)
           in respond approvalId approved
                (if approved then ''Approved by user'' else ''Denied by user'') s2))"

text \<open>
  \<^verbatim>\<open>handlePermissionRequest\<close> up to its \<^verbatim>\<open>await\<close>.  \<open>approvalId\<close> is the identifier
  the function draws from the clock and the random number generator.
\<close>

definition handlePermissionRequest ::
  "string \<Rightarrow> permission_request \<Rightarrow> nat \<Rightarrow> string \<Rightarrow> gate \<Rightarrow> gate" where
  "handlePermissionRequest cwd data res approvalId s =
     (if truthy (working_directory data) \<and>
         isAutoApproved cwd (tool_name data) (request_input data)
           (the (working_directory data)) s
      then write_response res 200
             (Some (Allow, ''Auto-approved (previously approved for this directory)'')) s
      else s\<lparr> pending :=
                AList.update approvalId
                  \<lparr> httpRes = res, channel = request_channel data,
                    threadTs = thread_ts data, user = request_user data,
                    toolName = tool_name data, input = request_input data,
                    workingDirectory = working_directory data, messageTs = None \<rparr>
                  (pending s),
              prompts := prompts s @
                [\<lparr> prompt_approval = approvalId,
                   prompt_channel =
                     (if request_channel data \<noteq> [] then request_channel data
                      else ''general''),
                   prompt_thread = thread_ts data,
                   prompt_tool = tool_name data,
                   prompt_directory = working_directory data \<rparr>],
              posting := posting s @ [approvalId] \<rparr>)"

text \<open>
  The rest of \<^verbatim>\<open>handlePermissionRequest\<close>, run when \<^verbatim>\<open>postMessage\<close> returns or
  throws: the message timestamp is stored or the request denied, and in both cases the
  five-minute timer is armed.
\<close>

datatype post_outcome = Posted "string option" | PostFailed

definition postMessage_settled :: "string \<Rightarrow> post_outcome \<Rightarrow> gate \<Rightarrow> gate" where
  "postMessage_settled approvalId outcome s =
     (let s1 = (case outcome of
                  Posted ts \<Rightarrow>
                    (case map_of (pending s) approvalId of
                       Some p \<Rightarrow>
                         if truthy ts
                         then s\<lparr> pending :=
                                  AList.update approvalId (p\<lparr> messageTs := ts \<rparr>) (pending s) \<rparr>
                         else s
                     | None \<Rightarrow> s)
                | PostFailed \<Rightarrow> respond approvalId False ''Failed to send Slack message'' s)
      in s1\<lparr> timers := timers s1 @ [approvalId] \<rparr>)"

text \<open>The callback of the five-minute timer.\<close>

definition timeout_callback :: "string \<Rightarrow> gate \<Rightarrow> gate" where
  "timeout_callback approvalId s =
     (if map_of (pending s) approvalId \<noteq> None
      then respond approvalId False ''Permission request timed out'' s
      else s)"

text \<open>
  \<^verbatim>\<open>stop\<close>: every pending approval is answered, in the order of the map, and the
  listener is closed.
\<close>

definition stop :: "gate \<Rightarrow> gate" where
  "stop s =
     (foldl (\<lambda>s' approvalId. respond approvalId False ''Server shutting down'' s') s
        (map fst (pending s)))\<lparr> listening := False \<rparr>"

text \<open>
  \<^verbatim>\<open>handleRequest\<close>, at the end of the request body.  The body is given by what
  \<^verbatim>\<open>JSON.parse\<close> makes of it: a syntax error, \<^verbatim>\<open>null\<close> (the destructuring at the
  head of \<^verbatim>\<open>handlePermissionRequest\<close> then throws inside the asynchronous function,
  which the \<^verbatim>\<open>catch\<close> of the caller does not see, and nothing is written), or a value
  with the properties of a permission request.
\<close>

datatype request_body = Unparseable | JsonNull | Json permission_request

record http_request =
  req_method :: string
  req_url :: string
  req_body :: request_body

definition handleRequest :: "string \<Rightarrow> http_request \<Rightarrow> nat \<Rightarrow> string \<Rightarrow> gate \<Rightarrow> gate" where
  "handleRequest cwd req res approvalId s =
     (if req_method req = ''POST'' \<and> req_url req = ''/permission-request'' then
        (case req_body req of
           Json data \<Rightarrow> handlePermissionRequest cwd data res approvalId s
         | JsonNull \<Rightarrow> s
         | Unparseable \<Rightarrow> write_response res 400 (Some (Deny, ''Invalid request'')) s)
      else write_response res 404 None s)"

text \<open>
  The steps of the gate.  The number paired with the state counts the requests received;
  it names the response object of the next one.  A \<^verbatim>\<open>postMessage\<close> call settles
  once and a timer fires once: the step takes them off \<open>posting\<close> and \<open>timers\<close>.
\<close>

datatype gate_event =
    Request http_request string
  | PostSettled string post_outcome
  | TimerFires string
  | Button string bool
  | ClearApprovals
  | Stop

definition gate_step :: "string \<Rightarrow> gate_event \<Rightarrow> nat \<times> gate \<Rightarrow> (nat \<times> gate) option" where
  "gate_step cwd e c =
     (case c of (n, s) \<Rightarrow>
        (case e of
           Request req approvalId \<Rightarrow> Some (Suc n, handleRequest cwd req n approvalId s)
         | PostSettled approvalId outcome \<Rightarrow>
             (if approvalId \<in> set (posting s)
              then Some (n, postMessage_settled approvalId outcome
                              (s\<lparr> posting := remove1 approvalId (posting s) \<rparr>))
              else None)
         | TimerFires approvalId \<Rightarrow>
             (if approvalId \<in> set (timers s)
              then Some (n, timeout_callback approvalId
                              (s\<lparr> timers := remove1 approvalId (timers s) \<rparr>))
              else None)
         | Button approvalId approved \<Rightarrow> Some (n, resolveApproval approvalId approved s)
         | ClearApprovals \<Rightarrow> Some (n, clearApprovals s)
         | Stop \<Rightarrow> Some (n, stop s)))"

fun gate_run :: "string \<Rightarrow> gate_event list \<Rightarrow> nat \<times> gate \<Rightarrow> (nat \<times> gate) option" where
  "gate_run cwd [] c = Some c"
| "gate_run cwd (e # es) c =
     (case gate_step cwd e c of None \<Rightarrow> None | Some c' \<Rightarrow> gate_run cwd es c')"


text \<open>
  The four ways in which an approval is resolved, as they act on one approval id: the two
  buttons, the timer, and the body of the loop of \<^verbatim>\<open>stop\<close>.
\<close>

datatype resolution = HumanApproval | HumanDenial | Timeout | Shutdown

fun resolve :: "resolution \<Rightarrow> string \<Rightarrow> gate \<Rightarrow> gate" where
  "resolve HumanApproval approvalId s = resolveApproval approvalId True s"
| "resolve HumanDenial approvalId s = resolveApproval approvalId False s"
| "resolve Timeout approvalId s = timeout_callback approvalId s"
| "resolve Shutdown approvalId s = respond approvalId False ''Server shutting down'' s"

fun creates :: "string \<Rightarrow> gate_event \<Rightarrow> bool" where
  "creates approvalId (Request req approvalId') = (approvalId' = approvalId)"
| "creates approvalId e = False"

text \<open>The responses written on one response object, and the objects held by \<open>pending\<close>.\<close>

definition answers :: "nat \<Rightarrow> gate \<Rightarrow> http_response list" where
  "answers h s = filter (\<lambda>r. response_of r = h) (responses s)"

definition held :: "gate \<Rightarrow> nat list" where
  "held s = map (\<lambda>e. httpRes (snd e)) (pending s)"

definition gate_inv :: "nat \<times> gate \<Rightarrow> bool" where
  "gate_inv c \<longleftrightarrow>
     (case c of (n, s) \<Rightarrow>
        distinct (held s) \<and>
        list_all (\<lambda>h. h < n \<and> answers h s = []) (held s) \<and>
        list_all (\<lambda>r. response_of r < n) (responses s))"

text \<open>The approvals that Approval Memory holds, as pairs of directory and tool.\<close>

definition remembered :: "gate \<Rightarrow> (string \<times> string) set" where
  "remembered s = {(d, t). \<exists>ts. map_of (approvedTools s) d = Some ts \<and> t \<in> set ts}"

definition deny_response :: "nat \<Rightarrow> string \<Rightarrow> http_response" where
  "deny_response h message =
     \<lparr> response_of = h, statusCode = 200, payload = Some (Deny, message) \<rparr>"

text \<open>Requests used as examples.\<close>

definition write_request :: "string \<Rightarrow> string \<Rightarrow> http_request" where
  "write_request target dir =
     \<lparr> req_method = ''POST'', req_url = ''/permission-request'',
       req_body = Json
         \<lparr> tool_name = ''Write'',
           request_input = \<lparr> file_path = Some target, path = None \<rparr>,
           request_channel = ''C1'', thread_ts = None, request_user = Some ''U1'',
           working_directory = Some dir \<rparr> \<rparr>"

definition malformed_request :: http_request where
  "malformed_request =
     \<lparr> req_method = ''POST'', req_url = ''/permission-request'', req_body = Unparseable \<rparr>"

definition stray_request :: http_request where
  "stray_request =
     \<lparr> req_method = ''GET'', req_url = ''/permission-request'', req_body = JsonNull \<rparr>"


text \<open>
  A response object is settled when it is older than the next request and \<open>pending\<close>
  holds it no longer.
\<close>

text \<open>
  Every pending approval is waiting for its \<^verbatim>\<open>postMessage\<close> call to settle or has its
  timer armed.
\<close>

definition armed :: "gate \<Rightarrow> bool" where
  "armed s \<longleftrightarrow>
     list_all (\<lambda>a. a \<in> set (posting s) \<or> a \<in> set (timers s)) (map fst (pending s))"

definition settled :: "nat \<Rightarrow> nat \<times> gate \<Rightarrow> bool" where
  "settled h c \<longleftrightarrow> gate_inv c \<and> h < fst c \<and> h \<notin> set (held (snd c))"

text \<open>
  The gate after one request to write \<^verbatim>\<open>/repo/x\<close> in \<^verbatim>\<open>/repo\<close> whose prompt has
  been posted, and after that approval has timed out, the approve button has been
  pressed and the server has shut down.
\<close>

definition prompted_example :: gate where
  "prompted_example =
     \<lparr> pending =
         [(''a1'', \<lparr> httpRes = 0, channel = ''C1'', threadTs = None, user = Some ''U1'',
                    toolName = ''Write'',
                    input = \<lparr> file_path = Some ''/repo/x'', path = None \<rparr>,
                    workingDirectory = Some ''/repo'', messageTs = Some ''17.1'' \<rparr>)],
       approvedTools = [], responses = [],
       prompts = [\<lparr> prompt_approval = ''a1'', prompt_channel = ''C1'', prompt_thread = None,
                    prompt_tool = ''Write'', prompt_directory = Some ''/repo'' \<rparr>],
       updates = [], posting = [], timers = [''a1''], listening = True \<rparr>"

text \<open>The gate after the same request, before the prompt has been posted.\<close>

definition requested_example :: gate where
  "requested_example =
     \<lparr> pending =
         [(''a1'', \<lparr> httpRes = 0, channel = ''C1'', threadTs = None, user = Some ''U1'',
                    toolName = ''Write'',
                    input = \<lparr> file_path = Some ''/repo/x'', path = None \<rparr>,
                    workingDirectory = Some ''/repo'', messageTs = None \<rparr>)],
       approvedTools = [], responses = [],
       prompts = [\<lparr> prompt_approval = ''a1'', prompt_channel = ''C1'', prompt_thread = None,
                    prompt_tool = ''Write'', prompt_directory = Some ''/repo'' \<rparr>],
       updates = [], posting = [''a1''], timers = [], listening = True \<rparr>"

definition timed_out_example :: gate where
  "timed_out_example =
     \<lparr> pending = [], approvedTools = [],
       responses = [deny_response 0 ''Permission request timed out''],
       prompts = [\<lparr> prompt_approval = ''a1'', prompt_channel = ''C1'', prompt_thread = None,
                    prompt_tool = ''Write'', prompt_directory = Some ''/repo'' \<rparr>],
       updates = [], posting = [], timers = [], listening = False \<rparr>"


text \<open>
  A segment of a resolved path: not empty, without a slash, and neither \<^verbatim>\<open>.\<close> nor
  \<^verbatim>\<open>..\<close>.  \<open>slashed\<close> writes a slash before every segment.
\<close>

definition proper_segment :: "string \<Rightarrow> bool" where
  "proper_segment seg \<longleftrightarrow>
     seg \<noteq> [] \<and> CHR ''/'' \<notin> set seg \<and> seg \<noteq> ''.'' \<and> seg \<noteq> ''..''"

definition slashed :: "string list \<Rightarrow> string" where
  "slashed segs = concat (map (\<lambda>seg. CHR ''/'' # seg) segs)"

text \<open>
  Write is approved for the root directory, and a request to write \<^verbatim>\<open>/etc/passwd\<close>
  with the root as working directory follows.
\<close>

definition root_approval_events :: "gate_event list" where
  "root_approval_events =
     [Request (write_request ''/x'' ''/'') ''a1'', PostSettled ''a1'' (Posted (Some ''17.1'')),
      Button ''a1'' True, Request (write_request ''/etc/passwd'' ''/'') ''a2'']"

text \<open>
  Write is approved for \<^verbatim>\<open>/home/u/projects\<close>, and a request to write \<^verbatim>\<open>../x\<close> with
  that working directory follows.
\<close>

definition traversal_events :: "gate_event list" where
  "traversal_events =
     [Request (write_request ''/home/u/projects/a'' ''/home/u/projects'') ''a1'',
      PostSettled ''a1'' (Posted (Some ''17.1'')), Button ''a1'' True,
      Request (write_request ''../x'' ''/home/u/projects'') ''a2'']"



section \<open>Properties of the admission controller\<close>

subsection \<open>The scan of the queue map\<close>

lemma scan_queues_find:
  "distinct (map fst qs) \<Longrightarrow>
   scan_queues act cnt mx qs =
     (case find (\<lambda>(k, q). k \<notin> act \<and> q \<noteq> []) qs of
        None \<Rightarrow> (qs, None)
      | Some (k, q) \<Rightarrow>
          if cnt < mx then
            ((if tl q = [] then AList.delete k qs else AList.update k (tl q) qs), Some (k, hd q))
          else (qs, None))"
proof (induction qs)
  case Nil
  then show ?case by simp
next
  case (Cons p qs)
  obtain k q where p: "p = (k, q)" by (cases p)
  show ?case
  proof (cases "k \<notin> act \<and> q \<noteq> []")
    case True
    with Cons.prems p show ?thesis
      by (cases q) (auto simp: image_iff)
  next
    case False
    have IH: "scan_queues act cnt mx qs =
     (case find (\<lambda>(k, q). k \<notin> act \<and> q \<noteq> []) qs of
        None \<Rightarrow> (qs, None)
      | Some (k, q) \<Rightarrow>
          if cnt < mx then
            ((if tl q = [] then AList.delete k qs else AList.update k (tl q) qs), Some (k, hd q))
          else (qs, None))"
      using Cons by simp
    show ?thesis
    proof (cases "find (\<lambda>(k, q). k \<notin> act \<and> q \<noteq> []) qs")
      case None
      with False p IH show ?thesis by auto
    next
      case (Some a)
      obtain k' q' where a: "a = (k', q')" by (cases a)
      from Some a have "(k', q') \<in> set qs"
        by (metis find_Some_iff nth_mem)
      with Cons.prems p have "k' \<noteq> k" by (auto simp: image_iff)
      with False p IH Some a show ?thesis by auto
    qed
  qed
qed

lemma finally_is_release_spec:
  assumes "distinct (map fst (sessionQueues s))"
  shows "processClaudeQuery_finally k m s = release_spec k m s"
  using assms
  by (simp add: processClaudeQuery_finally_def processNextInQueue_def release_spec_def
        scan_queues_find Let_def split: option.splits prod.splits)

lemma processNextInQueue_frame:
  "activeSessions (processNextInQueue s) = activeSessions s"
  "activeConcurrency (processNextInQueue s) = activeConcurrency s"
  "executions (processNextInQueue s) = executions s"
  "immediates (processNextInQueue s) = immediates s \<or>
   (\<exists>k' m'. immediates (processNextInQueue s) = immediates s @ [(k', m')])"
  by (auto simp: processNextInQueue_def split: prod.splits option.splits)

text \<open>
  C7.  A release removes the finished key from the active set and decrements the counter;
  it then does what the specification says (\<open>release_spec\<close>): the first key of the queue
  map, in insertion order, that is not active and has a non-empty queue is selected, and
  only if the counter is below the cap its oldest item is removed, the key deleted from the
  map when its queue became empty, and the item handed to \<^verbatim>\<open>setImmediate\<close>.  The item
  is not started inline (the running executions, the active set and the counter show no
  new entry), and at most one item is scheduled per release.
\<close>

theorem release_schedules_at_most_one:
  assumes "distinct (map fst (sessionQueues s))"
  shows "processClaudeQuery_finally k m s = release_spec k m s \<and>
         activeSessions (processClaudeQuery_finally k m s) = activeSessions s - {k} \<and>
         activeConcurrency (processClaudeQuery_finally k m s) = activeConcurrency s - 1 \<and>
         executions (processClaudeQuery_finally k m s) = remove1 (k, m) (executions s) \<and>
         (immediates (processClaudeQuery_finally k m s) = immediates s \<or>
          (\<exists>k' m'. immediates (processClaudeQuery_finally k m s) = immediates s @ [(k', m')]))"
proof -
  let ?s1 = "s\<lparr> activeSessions := activeSessions s - {k},
                activeConcurrency := activeConcurrency s - 1,
                executions := remove1 (k, m) (executions s),
                history := history s @ [Released k m] \<rparr>"
  have f: "processClaudeQuery_finally k m s = processNextInQueue ?s1"
    by (simp add: processClaudeQuery_finally_def)
  show ?thesis
    using finally_is_release_spec[OF assms, of k m] processNextInQueue_frame[of ?s1]
    unfolding f[symmetric] by simp
qed

theorem release_schedules_at_most_one_witness:
  "distinct (map fst (sessionQueues busy_example)) \<and>
   processClaudeQuery_finally ''A'' 1 busy_example = release_spec ''A'' 1 busy_example \<and>
   sessionQueues (processClaudeQuery_finally ''A'' 1 busy_example) = [(''B'', [2, 3])] \<and>
   immediates (processClaudeQuery_finally ''A'' 1 busy_example) = [(''A'', 4)] \<and>
   activeSessions (processClaudeQuery_finally ''A'' 1 busy_example) = {} \<and>
   activeConcurrency (processClaudeQuery_finally ''A'' 1 busy_example) = 0"
proof -
  have d: "distinct (map fst (sessionQueues busy_example))"
    by (simp add: busy_example_def)
  have e: "release_spec ''A'' 1 busy_example =
      \<lparr> activeSessions = {}, sessionQueues = [(''B'', [2, 3])],
        activeConcurrency = 0, maxConcurrency = 1, immediates = [(''A'', 4)],
        executions = [], history = [Released ''A'' 1, ProcessingNext ''A'' 4] \<rparr>"
    by (simp add: release_spec_def busy_example_def)
  have r: "processClaudeQuery_finally ''A'' 1 busy_example = release_spec ''A'' 1 busy_example"
    using release_schedules_at_most_one[OF d, of "''A''" 1] by (rule conjunct1)
  show ?thesis
    unfolding r e using d by simp
qed

subsection \<open>First in, first out\<close>

lemma queue_of_update:
  "queue_of (AList.update k v qs) k' = (if k' = k then v else queue_of qs k')"
  by (simp add: queue_of_def update_conv')

lemma scan_queues_None:
  "distinct (map fst qs) \<Longrightarrow> scan_queues act cnt mx qs = (qs', None) \<Longrightarrow> qs' = qs"
  by (auto simp: scan_queues_find split: option.splits prod.splits if_splits)

lemma find_Some_mem: "find P xs = Some x \<Longrightarrow> x \<in> set xs \<and> P x"
  by (metis find_Some_iff nth_mem)

lemma scan_queues_Some:
  assumes d: "distinct (map fst qs)" and sc: "scan_queues act cnt mx qs = (qs', Some (k, m))"
  shows "queue_of qs k = m # queue_of qs' k"
    and "k' \<noteq> k \<Longrightarrow> queue_of qs' k' = queue_of qs k'"
    and "distinct (map fst qs')"
    and "k \<notin> act" and "cnt < mx"
proof -
  from sc d obtain q where f: "find (\<lambda>(k, q). k \<notin> act \<and> q \<noteq> []) qs = Some (k, q)"
    and lt: "cnt < mx" and m: "m = hd q"
    and qs': "qs' = (if tl q = [] then AList.delete k qs else AList.update k (tl q) qs)"
    by (auto simp: scan_queues_find split: option.splits prod.splits if_splits)
  from find_Some_mem[OF f] have mem: "(k, q) \<in> set qs" and ne: "q \<noteq> []" and na: "k \<notin> act"
    by auto
  from d mem have mo: "map_of qs k = Some q" by simp
  show "queue_of qs k = m # queue_of qs' k"
    using mo ne m qs' by (cases q) (auto simp: queue_of_def delete_conv' update_conv')
  show "k' \<noteq> k \<Longrightarrow> queue_of qs' k' = queue_of qs k'"
    using qs' by (auto simp: queue_of_def delete_conv' update_conv')
  show "distinct (map fst qs')" using d qs' by (simp add: distinct_delete distinct_update)
  show "k \<notin> act" by (rule na)
  show "cnt < mx" by (rule lt)
qed

lemma queued_msgs_append [simp]: "queued_msgs k (h @ h') = queued_msgs k h @ queued_msgs k h'"
  by (simp add: queued_msgs_def)
lemma dispatched_msgs_append [simp]:
  "dispatched_msgs k (h @ h') = dispatched_msgs k h @ dispatched_msgs k h'"
  by (simp add: dispatched_msgs_def)
lemma deferred_starts_append [simp]:
  "deferred_starts k (h @ h') = deferred_starts k h @ deferred_starts k h'"
  by (simp add: deferred_starts_def)
lemma awaiting_start_append [simp]:
  "awaiting_start k (x @ y) = awaiting_start k x @ awaiting_start k y"
  by (simp add: awaiting_start_def)

lemma fifo_inv_initial: "fifo_inv (initial mx)"
  by (simp add: fifo_inv_def initial_def queued_msgs_def dispatched_msgs_def deferred_starts_def
        awaiting_start_def queue_of_def)

lemma fifo_inv_enqueue: "fifo_inv s \<Longrightarrow> fifo_inv (enqueueMessage k m s)"
  by (simp add: fifo_inv_def enqueueMessage_def queue_of_update distinct_update)
     (simp add: queued_msgs_def dispatched_msgs_def deferred_starts_def)

lemma fifo_inv_enter:
  "fifo_inv s \<Longrightarrow> fifo_inv (processClaudeQuery_enter Direct k m s)"
  by (simp add: fifo_inv_def processClaudeQuery_enter_def)
     (simp add: queued_msgs_def dispatched_msgs_def deferred_starts_def)

lemma fifo_inv_immediate:
  "fifo_inv s \<Longrightarrow> immediates s = (k, m) # rest \<Longrightarrow>
   fifo_inv (processClaudeQuery_enter Deferred k m (s\<lparr> immediates := rest \<rparr>))"
  by (simp add: fifo_inv_def processClaudeQuery_enter_def)
     (simp add: queued_msgs_def dispatched_msgs_def deferred_starts_def awaiting_start_def)

lemma fifo_inv_next: "fifo_inv s \<Longrightarrow> fifo_inv (processNextInQueue s)"
proof -
  assume inv: "fifo_inv s"
  obtain qs' found where sc:
    "scan_queues (activeSessions s) (activeConcurrency s) (maxConcurrency s) (sessionQueues s)
       = (qs', found)" by (cases "scan_queues (activeSessions s) (activeConcurrency s) (maxConcurrency s) (sessionQueues s)")
  from inv have d: "distinct (map fst (sessionQueues s))" by (simp add: fifo_inv_def)
  show ?thesis
  proof (cases found)
    case None
    with sc scan_queues_None[OF d] have "qs' = sessionQueues s" by simp
    with sc None inv show ?thesis by (simp add: processNextInQueue_def)
  next
    case (Some a)
    obtain k m where a: "a = (k, m)" by (cases a)
    note S = scan_queues_Some[OF d sc[unfolded Some a]]
    have q: "\<And>k'. queue_of (sessionQueues s) k' =
        (if k' = k then [m] else []) @ queue_of qs' k'"
      using S(1) S(2) by auto
    show ?thesis
      using inv S(3) sc Some a
      by (simp add: fifo_inv_def processNextInQueue_def q)
         (simp add: queued_msgs_def dispatched_msgs_def deferred_starts_def awaiting_start_def)
  qed
qed

lemma fifo_inv_finally: "fifo_inv s \<Longrightarrow> fifo_inv (processClaudeQuery_finally k m s)"
  unfolding processClaudeQuery_finally_def
  by (rule fifo_inv_next)
     (simp add: fifo_inv_def, simp add: queued_msgs_def dispatched_msgs_def deferred_starts_def)

lemma fifo_inv_step: "fifo_inv s \<Longrightarrow> step e s = Some s' \<Longrightarrow> fifo_inv s'"
  by (cases e)
     (auto simp: step_def handleMessage_def fifo_inv_enqueue fifo_inv_enter fifo_inv_immediate
        fifo_inv_finally split: list.splits if_splits)

lemma fifo_inv_run: "fifo_inv s \<Longrightarrow> run es s = Some s' \<Longrightarrow> fifo_inv s'"
  by (induction es arbitrary: s) (auto split: option.splits dest: fifo_inv_step)

lemma queue_of_enqueue:
  "queue_of (sessionQueues (enqueueMessage k m s)) k = queue_of (sessionQueues s) k @ [m]"
  by (simp add: enqueueMessage_def queue_of_update)

text \<open>
  In every state the controller reaches, and for every key, the messages queued for the
  key, in the order of their submission, are the messages taken out of its queue, in the
  order they were taken, followed by its present queue; and the messages taken out are
  those whose deferred start has run, in the order of the starts, followed by those whose
  callback is waiting.
\<close>

lemma dispatch_order:
  assumes "run es (initial mx) = Some s"
  shows "queued_msgs k (history s) =
           dispatched_msgs k (history s) @ queue_of (sessionQueues s) k"
    and "dispatched_msgs k (history s) =
           deferred_starts k (history s) @ awaiting_start k (immediates s)"
  using fifo_inv_run[OF fifo_inv_initial assms] by (simp_all add: fifo_inv_def)

subsection \<open>Runs in which no deferred start is overtaken\<close>

lemma scan_queues_no_candidate:
  assumes d: "distinct (map fst qs)" and sc: "scan_queues act cnt mx qs = (qs', None)" and lt: "cnt < mx"
  shows "k \<notin> act \<Longrightarrow> queue_of qs k = []"
proof -
  assume k: "k \<notin> act"
  from sc d lt have f: "find (\<lambda>(k, q). k \<notin> act \<and> q \<noteq> []) qs = None"
    by (auto simp: scan_queues_find split: option.splits prod.splits if_splits)
  show "queue_of qs k = []"
  proof (cases "map_of qs k")
    case None
    then show ?thesis by (simp add: queue_of_def)
  next
    case (Some q)
    then have "(k, q) \<in> set qs" by (rule map_of_SomeD)
    with f k have "q = []" by (auto simp: find_None_iff)
    with Some show ?thesis by (simp add: queue_of_def)
  qed
qed

lemma remove1_keys_set:
  "distinct (map fst xs) \<Longrightarrow> (k, m) \<in> set xs \<Longrightarrow>
   fst ` set (remove1 (k, m) xs) = fst ` set xs - {k}"
proof (induction xs)
  case Nil
  then show ?case by simp
next
  case (Cons x xs)
  show ?case
  proof (cases "x = (k, m)")
    case True
    with Cons.prems have "k \<notin> fst ` set xs" by simp
    with True show ?thesis by simp
  next
    case False
    with Cons.prems have mem: "(k, m) \<in> set xs" by simp
    then have "k \<in> fst ` set xs" by force
    with Cons.prems have "fst x \<noteq> k" by auto
    moreover from Cons.IH[OF _ mem] Cons.prems
    have "fst ` set (remove1 (k, m) xs) = fst ` set xs - {k}" by simp
    ultimately show ?thesis using False by auto
  qed
qed

lemma remove1_keys_distinct:
  "distinct (map fst xs) \<Longrightarrow> distinct (map fst (remove1 x xs))"
proof (induction xs)
  case Nil
  then show ?case by simp
next
  case (Cons y xs)
  have "set (remove1 x xs) \<subseteq> set xs" by (rule set_remove1_subset)
  with Cons show ?case by auto
qed

lemma capacity_invI_quiet:
  assumes "finite (activeSessions s)" "int (card (activeSessions s)) = activeConcurrency s"
    "fst ` set (executions s) = activeSessions s" "distinct (map fst (executions s))"
    "distinct (map fst (sessionQueues s))" "immediates s = []"
    "activeConcurrency s \<le> maxConcurrency s"
    "\<And>k. k \<notin> activeSessions s \<Longrightarrow> queue_of (sessionQueues s) k \<noteq> [] \<Longrightarrow>
          maxConcurrency s \<le> activeConcurrency s"
  shows "capacity_inv s"
  unfolding capacity_inv_def using assms by auto

lemma capacity_invI_waiting:
  assumes "finite (activeSessions s)" "int (card (activeSessions s)) = activeConcurrency s"
    "fst ` set (executions s) = activeSessions s" "distinct (map fst (executions s))"
    "distinct (map fst (sessionQueues s))" "immediates s = [(k', m')]"
    "k' \<notin> activeSessions s" "activeConcurrency s < maxConcurrency s"
    "\<And>k. k \<noteq> k' \<Longrightarrow> k \<notin> activeSessions s \<Longrightarrow> queue_of (sessionQueues s) k \<noteq> [] \<Longrightarrow>
          maxConcurrency s \<le> activeConcurrency s + 1"
  shows "capacity_inv s"
  unfolding capacity_inv_def using assms by auto

lemma capacity_inv_base:
  assumes "capacity_inv s"
  shows "finite (activeSessions s)" "int (card (activeSessions s)) = activeConcurrency s"
    "fst ` set (executions s) = activeSessions s" "distinct (map fst (executions s))"
    "distinct (map fst (sessionQueues s))"
  using assms unfolding capacity_inv_def by blast+

lemma capacity_inv_quiet:
  assumes "capacity_inv s" "immediates s = []"
  shows "activeConcurrency s \<le> maxConcurrency s"
    and "k \<notin> activeSessions s \<Longrightarrow> queue_of (sessionQueues s) k \<noteq> [] \<Longrightarrow>
          maxConcurrency s \<le> activeConcurrency s"
  using assms unfolding capacity_inv_def by auto

lemma capacity_inv_waiting:
  assumes "capacity_inv s" "immediates s = (k', m') # rest"
  shows "rest = []" "k' \<notin> activeSessions s" "activeConcurrency s < maxConcurrency s"
    and "k \<noteq> k' \<Longrightarrow> k \<notin> activeSessions s \<Longrightarrow> queue_of (sessionQueues s) k \<noteq> [] \<Longrightarrow>
          maxConcurrency s \<le> activeConcurrency s + 1"
  using assms unfolding capacity_inv_def by auto

lemma capacity_inv_initial: "0 \<le> mx \<Longrightarrow> capacity_inv (initial mx)"
  by (rule capacity_invI_quiet) (simp_all add: initial_def queue_of_def)

lemma capacity_inv_enqueue:
  assumes inv: "capacity_inv s" and quiet: "immediates s = []"
    and why: "k \<in> activeSessions s \<or> maxConcurrency s \<le> activeConcurrency s"
  shows "capacity_inv (enqueueMessage k m s)"
proof (rule capacity_invI_quiet)
  note B = capacity_inv_base[OF inv] and Q = capacity_inv_quiet[OF inv quiet]
  show "finite (activeSessions (enqueueMessage k m s))" using B by (simp add: enqueueMessage_def)
  show "int (card (activeSessions (enqueueMessage k m s))) = activeConcurrency (enqueueMessage k m s)"
    using B by (simp add: enqueueMessage_def)
  show "fst ` set (executions (enqueueMessage k m s)) = activeSessions (enqueueMessage k m s)"
    using B by (simp add: enqueueMessage_def)
  show "distinct (map fst (executions (enqueueMessage k m s)))"
    using B by (simp add: enqueueMessage_def)
  show "distinct (map fst (sessionQueues (enqueueMessage k m s)))"
    using B by (simp add: enqueueMessage_def distinct_update)
  show "immediates (enqueueMessage k m s) = []" using quiet by (simp add: enqueueMessage_def)
  show "activeConcurrency (enqueueMessage k m s) \<le> maxConcurrency (enqueueMessage k m s)"
    using Q(1) by (simp add: enqueueMessage_def)
  show "maxConcurrency (enqueueMessage k m s) \<le> activeConcurrency (enqueueMessage k m s)"
    if "k' \<notin> activeSessions (enqueueMessage k m s)"
      "queue_of (sessionQueues (enqueueMessage k m s)) k' \<noteq> []" for k'
  proof (cases "k' = k")
    case True
    with that(1) why show ?thesis by (simp add: enqueueMessage_def)
  next
    case False
    with that Q(2)[of k'] show ?thesis by (simp add: enqueueMessage_def queue_of_update)
  qed
qed

lemma capacity_inv_enter_direct:
  assumes inv: "capacity_inv s" and quiet: "immediates s = []" and k: "k \<notin> activeSessions s"
    and lt: "activeConcurrency s < maxConcurrency s"
  shows "capacity_inv (processClaudeQuery_enter Direct k m s)"
proof (rule capacity_invI_quiet)
  let ?s' = "processClaudeQuery_enter Direct k m s"
  note B = capacity_inv_base[OF inv] and Q = capacity_inv_quiet[OF inv quiet]
  show "finite (activeSessions ?s')" using B by (simp add: processClaudeQuery_enter_def)
  show "int (card (activeSessions ?s')) = activeConcurrency ?s'"
    using B k by (simp add: processClaudeQuery_enter_def)
  show "fst ` set (executions ?s') = activeSessions ?s'"
    using B by (simp add: processClaudeQuery_enter_def)
  show "distinct (map fst (executions ?s'))"
    using B k by (simp add: processClaudeQuery_enter_def)
  show "distinct (map fst (sessionQueues ?s'))" using B by (simp add: processClaudeQuery_enter_def)
  show "immediates ?s' = []" using quiet by (simp add: processClaudeQuery_enter_def)
  show "activeConcurrency ?s' \<le> maxConcurrency ?s'"
    using lt by (simp add: processClaudeQuery_enter_def)
  show "maxConcurrency ?s' \<le> activeConcurrency ?s'"
    if "k' \<notin> activeSessions ?s'" "queue_of (sessionQueues ?s') k' \<noteq> []" for k'
    using that Q(2)[of k'] lt by (simp add: processClaudeQuery_enter_def)
qed

lemma capacity_inv_immediate:
  assumes inv: "capacity_inv s" and im: "immediates s = (k, m) # rest"
  shows "capacity_inv (processClaudeQuery_enter Deferred k m (s\<lparr> immediates := rest \<rparr>))"
proof (rule capacity_invI_quiet)
  let ?s' = "processClaudeQuery_enter Deferred k m (s\<lparr> immediates := rest \<rparr>)"
  note B = capacity_inv_base[OF inv] and W = capacity_inv_waiting[OF inv im]
  show "finite (activeSessions ?s')" using B by (simp add: processClaudeQuery_enter_def)
  show "int (card (activeSessions ?s')) = activeConcurrency ?s'"
    using B W(2) by (simp add: processClaudeQuery_enter_def)
  show "fst ` set (executions ?s') = activeSessions ?s'"
    using B by (simp add: processClaudeQuery_enter_def)
  show "distinct (map fst (executions ?s'))"
    using B W(2) by (simp add: processClaudeQuery_enter_def)
  show "distinct (map fst (sessionQueues ?s'))" using B by (simp add: processClaudeQuery_enter_def)
  show "immediates ?s' = []" using W(1) by (simp add: processClaudeQuery_enter_def)
  show "activeConcurrency ?s' \<le> maxConcurrency ?s'"
    using W(3) by (simp add: processClaudeQuery_enter_def)
  show "maxConcurrency ?s' \<le> activeConcurrency ?s'"
    if "k' \<notin> activeSessions ?s'" "queue_of (sessionQueues ?s') k' \<noteq> []" for k'
    using that W(4)[of k'] by (simp add: processClaudeQuery_enter_def)
qed

lemma capacity_inv_finally:
  assumes inv: "capacity_inv s" and quiet: "immediates s = []"
    and ex: "(k0, m0) \<in> set (executions s)"
  shows "capacity_inv (processClaudeQuery_finally k0 m0 s)"
proof -
  let ?act = "activeSessions s - {k0}"
  let ?cnt = "activeConcurrency s - 1"
  let ?s1 = "s\<lparr> activeSessions := ?act, activeConcurrency := ?cnt,
                executions := remove1 (k0, m0) (executions s),
                history := history s @ [Released k0 m0] \<rparr>"
  let ?s2 = "processNextInQueue ?s1"
  note fin = capacity_inv_base(1)[OF inv] and card = capacity_inv_base(2)[OF inv]
    and keys = capacity_inv_base(3)[OF inv] and dk = capacity_inv_base(4)[OF inv]
    and dq = capacity_inv_base(5)[OF inv] and le = capacity_inv_quiet(1)[OF inv quiet]
    and full = capacity_inv_quiet(2)[OF inv quiet]
  from ex have "fst (k0, m0) \<in> fst ` set (executions s)" by (rule imageI)
  with keys have k0: "k0 \<in> activeSessions s" by simp
  from fin k0 have "card (activeSessions s) = Suc (card ?act)"
    by (rule card.remove)
  with card have card': "int (card ?act) = ?cnt" by simp
  note R = remove1_keys_set[OF dk ex] remove1_keys_distinct[OF dk, of "(k0, m0)"]
  have lt: "?cnt < maxConcurrency s" using le by simp
  obtain qs' found where sc:
    "scan_queues ?act ?cnt (maxConcurrency s) (sessionQueues s) = (qs', found)"
    by (cases "scan_queues ?act ?cnt (maxConcurrency s) (sessionQueues s)")
  have fs: "processClaudeQuery_finally k0 m0 s = ?s2"
    by (simp add: processClaudeQuery_finally_def)
  have frame: "activeSessions ?s2 = ?act" "activeConcurrency ?s2 = ?cnt"
    "executions ?s2 = remove1 (k0, m0) (executions s)" "maxConcurrency ?s2 = maxConcurrency s"
    by (simp_all add: processNextInQueue_def split: prod.splits option.splits)
  have qs2: "sessionQueues ?s2 = qs'"
    using sc by (simp add: processNextInQueue_def split: prod.splits option.splits)
  show ?thesis
  proof (cases found)
    case None
    from scan_queues_None[OF dq sc[unfolded None]] have qs': "qs' = sessionQueues s" .
    have im: "immediates ?s2 = []"
      using sc None quiet by (simp add: processNextInQueue_def)
    have none: "\<And>k. k \<notin> ?act \<Longrightarrow> queue_of (sessionQueues s) k = []"
      by (rule scan_queues_no_candidate[OF dq sc[unfolded None] lt])
    show ?thesis unfolding fs
    proof (rule capacity_invI_quiet)
      show "finite (activeSessions ?s2)" using fin by (simp add: frame)
      show "int (card (activeSessions ?s2)) = activeConcurrency ?s2"
        using card' by (simp add: frame)
      show "fst ` set (executions ?s2) = activeSessions ?s2"
        using R(1) keys by (simp add: frame)
      show "distinct (map fst (executions ?s2))" using R(2) by (simp add: frame)
      show "distinct (map fst (sessionQueues ?s2))" using dq by (simp add: qs2 qs')
      show "immediates ?s2 = []" by (rule im)
      show "activeConcurrency ?s2 \<le> maxConcurrency ?s2" using lt by (simp add: frame)
      show "maxConcurrency ?s2 \<le> activeConcurrency ?s2"
        if "k \<notin> activeSessions ?s2" "queue_of (sessionQueues ?s2) k \<noteq> []" for k
        using that none[of k] by (simp add: frame qs2 qs')
    qed
  next
    case (Some a)
    obtain k' m' where a: "a = (k', m')" by (cases a)
    note S = scan_queues_Some[OF dq sc[unfolded Some a]]
    have im: "immediates ?s2 = [(k', m')]"
      using sc Some a quiet by (simp add: processNextInQueue_def)
    have other: "maxConcurrency s \<le> ?cnt + 1"
      if "k \<noteq> k'" "k \<notin> ?act" "queue_of qs' k \<noteq> []" for k
    proof (cases "k = k0")
      case True
      from S(4) that(1) True have n: "k' \<notin> activeSessions s" by simp
      from S(1) have q: "queue_of (sessionQueues s) k' \<noteq> []" by simp
      from full[OF n q] show ?thesis by simp
    next
      case False
      from that(2) False have n: "k \<notin> activeSessions s" by simp
      from S(2)[OF that(1)] that(3) have q: "queue_of (sessionQueues s) k \<noteq> []" by simp
      from full[OF n q] show ?thesis by simp
    qed
    show ?thesis unfolding fs
    proof (rule capacity_invI_waiting)
      show "finite (activeSessions ?s2)" using fin by (simp add: frame)
      show "int (card (activeSessions ?s2)) = activeConcurrency ?s2"
        using card' by (simp add: frame)
      show "fst ` set (executions ?s2) = activeSessions ?s2"
        using R(1) keys by (simp add: frame)
      show "distinct (map fst (executions ?s2))" using R(2) by (simp add: frame)
      show "distinct (map fst (sessionQueues ?s2))" using S(3) by (simp add: qs2)
      show "immediates ?s2 = [(k', m')]" by (rule im)
      show "k' \<notin> activeSessions ?s2" using S(4) by (simp add: frame)
      show "activeConcurrency ?s2 < maxConcurrency ?s2" using lt by (simp add: frame)
      show "maxConcurrency ?s2 \<le> activeConcurrency ?s2 + 1"
        if "k \<noteq> k'" "k \<notin> activeSessions ?s2" "queue_of (sessionQueues ?s2) k \<noteq> []" for k
        using that other[of k] by (simp add: frame qs2)
    qed
  qed
qed

lemma capacity_inv_step:
  assumes "capacity_inv s" and "immediates s = [] \<or> e = Immediate" and "step e s = Some s'"
  shows "capacity_inv s'"
proof (cases e)
  case (Message k m)
  with assms have quiet: "immediates s = []" by simp
  from Message assms(3) have s': "s' = snd (handleMessage k m s)" by (simp add: step_def)
  show ?thesis
  proof (cases "k \<in> activeSessions s \<or> maxConcurrency s \<le> activeConcurrency s")
    case True
    then have "s' = enqueueMessage k m s" unfolding s' by (auto simp: handleMessage_def)
    with capacity_inv_enqueue[OF assms(1) quiet True] show ?thesis by simp
  next
    case False
    then have "s' = processClaudeQuery_enter Direct k m s"
      unfolding s' by (auto simp: handleMessage_def)
    with capacity_inv_enter_direct[OF assms(1) quiet, of k m] False show ?thesis by simp
  qed
next
  case Immediate
  with assms(3) obtain k m rest where im: "immediates s = (k, m) # rest"
    and s': "s' = processClaudeQuery_enter Deferred k m (s\<lparr> immediates := rest \<rparr>)"
    by (auto simp: step_def split: list.splits)
  from capacity_inv_immediate[OF assms(1) im] s' show ?thesis by simp
next
  case (Finished k m)
  with assms(2) have quiet: "immediates s = []" by simp
  from Finished assms(3) have ex: "(k, m) \<in> set (executions s)"
    and s': "s' = processClaudeQuery_finally k m s"
    by (auto simp: step_def split: if_splits)
  from capacity_inv_finally[OF assms(1) quiet ex] s' show ?thesis by simp
qed

lemma capacity_inv_run:
  "capacity_inv s \<Longrightarrow> run_undisturbed es s = Some s' \<Longrightarrow> capacity_inv s'"
proof (induction es arbitrary: s)
  case Nil
  then show ?case by simp
next
  case (Cons e es)
  from Cons.prems(2) obtain s1 where q: "immediates s = [] \<or> e = Immediate"
    and st: "step e s = Some s1" and rn: "run_undisturbed es s1 = Some s'"
    by (auto split: if_splits option.splits)
  from Cons.IH[OF capacity_inv_step[OF Cons.prems(1) q st] rn] show ?case .
qed

lemma submitted_msgs_append [simp]:
  "submitted_msgs k (h @ h') = submitted_msgs k h @ submitted_msgs k h'"
  by (simp add: submitted_msgs_def)

lemma entered_msgs_append [simp]:
  "entered_msgs k (h @ h') = entered_msgs k h @ entered_msgs k h'"
  by (simp add: entered_msgs_def)

lemma released_msgs_append [simp]:
  "released_msgs k (h @ h') = released_msgs k h @ released_msgs k h'"
  by (simp add: released_msgs_def)

lemma running_msgs_append [simp]:
  "running_msgs k (x @ y) = running_msgs k x @ running_msgs k y"
  by (simp add: running_msgs_def)

lemma projections_single [simp]:
  "submitted_msgs k [MessageQueued k' m] = (if k' = k then [m] else [])"
  "submitted_msgs k [Entered Direct k' m] = (if k' = k then [m] else [])"
  "submitted_msgs k [Entered Deferred k' m] = []"
  "submitted_msgs k [ProcessingNext k' m] = []"
  "submitted_msgs k [Released k' m] = []"
  "entered_msgs k [MessageQueued k' m] = []"
  "entered_msgs k [Entered site k' m] = (if k' = k then [m] else [])"
  "entered_msgs k [ProcessingNext k' m] = []"
  "entered_msgs k [Released k' m] = []"
  "released_msgs k [MessageQueued k' m] = []"
  "released_msgs k [Entered site k' m] = []"
  "released_msgs k [ProcessingNext k' m] = []"
  "released_msgs k [Released k' m] = (if k' = k then [m] else [])"
  "running_msgs k [(k', m)] = (if k' = k then [m] else [])"
  "awaiting_start k [(k', m)] = (if k' = k then [m] else [])"
  "awaiting_start k [] = []"
  by (simp_all add: submitted_msgs_def entered_msgs_def released_msgs_def running_msgs_def
        awaiting_start_def)

lemma order_inv_initial: "order_inv (initial mx)"
  by (simp add: order_inv_def initial_def submitted_msgs_def entered_msgs_def released_msgs_def
        running_msgs_def awaiting_start_def queue_of_def)

lemma order_inv_enqueue: "order_inv s \<Longrightarrow> order_inv (enqueueMessage k m s)"
  by (simp add: order_inv_def enqueueMessage_def queue_of_update)

lemma order_inv_enter_direct:
  assumes o: "order_inv s" and inv: "capacity_inv s" and quiet: "immediates s = []"
    and k: "k \<notin> activeSessions s" and lt: "activeConcurrency s < maxConcurrency s"
  shows "order_inv (processClaudeQuery_enter Direct k m s)"
proof -
  have "queue_of (sessionQueues s) k = []"
  proof (rule ccontr)
    assume "queue_of (sessionQueues s) k \<noteq> []"
    from capacity_inv_quiet(2)[OF inv quiet k this] lt show False by simp
  qed
  with o quiet show ?thesis
    by (simp add: order_inv_def processClaudeQuery_enter_def)
qed

lemma order_inv_immediate:
  assumes o: "order_inv s" and inv: "capacity_inv s" and im: "immediates s = (k, m) # rest"
  shows "order_inv (processClaudeQuery_enter Deferred k m (s\<lparr> immediates := rest \<rparr>))"
proof -
  from capacity_inv_waiting(1)[OF inv im] have "rest = []" .
  with o im show ?thesis
    by (simp add: order_inv_def processClaudeQuery_enter_def awaiting_start_def)
qed

lemma running_msgs_remove1:
  "distinct (map fst xs) \<Longrightarrow> (k0, m0) \<in> set xs \<Longrightarrow>
   running_msgs k xs = running_msgs k (remove1 (k0, m0) xs) @ (if k = k0 then [m0] else [])"
proof (induction xs)
  case Nil
  then show ?case by simp
next
  case (Cons x xs)
  obtain kx mx where x: "x = (kx, mx)" by (cases x)
  show ?case
  proof (cases "x = (k0, m0)")
    case True
    from Cons.prems(1) True have "k0 \<notin> fst ` set xs" by simp
    then have "filter (\<lambda>(k', m). k' = k0) xs = []"
      by (force simp: filter_empty_conv)
    with True show ?thesis by (simp add: running_msgs_def)
  next
    case False
    with Cons.prems have mem: "(k0, m0) \<in> set xs" by simp
    then have "k0 \<in> fst ` set xs" by force
    with Cons.prems(1) x have "kx \<noteq> k0" by auto
    moreover from Cons.IH[OF _ mem] Cons.prems(1)
    have "running_msgs k xs =
        running_msgs k (remove1 (k0, m0) xs) @ (if k = k0 then [m0] else [])" by simp
    ultimately show ?thesis using False x
      by (cases "kx = k") (simp_all add: running_msgs_def)
  qed
qed

lemma running_msgs_released:
  assumes "distinct (map fst xs)" and "(k0, m0) \<in> set xs"
  shows "running_msgs k xs = (if k = k0 then [m0] else []) @ running_msgs k (remove1 (k0, m0) xs)"
proof -
  from remove1_keys_set[OF assms] have "k0 \<notin> fst ` set (remove1 (k0, m0) xs)" by simp
  then have "filter (\<lambda>(k', m). k' = k0) (remove1 (k0, m0) xs) = []"
    by (force simp: filter_empty_conv)
  then have "running_msgs k0 (remove1 (k0, m0) xs) = []" by (simp add: running_msgs_def)
  with running_msgs_remove1[OF assms, of k] show ?thesis by simp
qed

lemma order_inv_next:
  assumes o: "order_inv s" and quiet: "immediates s = []"
    and dq: "distinct (map fst (sessionQueues s))"
  shows "order_inv (processNextInQueue s)"
proof -
  obtain qs' found where sc:
    "scan_queues (activeSessions s) (activeConcurrency s) (maxConcurrency s) (sessionQueues s)
       = (qs', found)"
    by (cases "scan_queues (activeSessions s) (activeConcurrency s) (maxConcurrency s) (sessionQueues s)")
  show ?thesis
  proof (cases found)
    case None
    with sc scan_queues_None[OF dq] have "qs' = sessionQueues s" by simp
    with sc None o show ?thesis by (simp add: processNextInQueue_def)
  next
    case (Some a)
    obtain k m where a: "a = (k, m)" by (cases a)
    note S = scan_queues_Some[OF dq sc[unfolded Some a]]
    have q: "\<And>k'. queue_of (sessionQueues s) k' =
        (if k' = k then [m] else []) @ queue_of qs' k'"
      using S(1) S(2) by auto
    show ?thesis
      using o quiet sc Some a
      by (simp add: order_inv_def processNextInQueue_def q)
  qed
qed

lemma order_inv_finally:
  assumes o: "order_inv s" and inv: "capacity_inv s" and quiet: "immediates s = []"
    and ex: "(k0, m0) \<in> set (executions s)"
  shows "order_inv (processClaudeQuery_finally k0 m0 s)"
proof -
  let ?s1 = "s\<lparr> activeSessions := activeSessions s - {k0},
                activeConcurrency := activeConcurrency s - 1,
                executions := remove1 (k0, m0) (executions s),
                history := history s @ [Released k0 m0] \<rparr>"
  note R = running_msgs_released[OF capacity_inv_base(4)[OF inv] ex]
  have "order_inv ?s1"
    using o by (simp add: order_inv_def R)
  moreover have "immediates ?s1 = []" using quiet by simp
  moreover have "distinct (map fst (sessionQueues ?s1))"
    using capacity_inv_base(5)[OF inv] by simp
  ultimately have "order_inv (processNextInQueue ?s1)" by (rule order_inv_next)
  then show ?thesis by (simp add: processClaudeQuery_finally_def)
qed

lemma order_inv_step:
  assumes o: "order_inv s" and inv: "capacity_inv s"
    and q: "immediates s = [] \<or> e = Immediate" and st: "step e s = Some s'"
  shows "order_inv s'"
proof (cases e)
  case (Message k m)
  with q have quiet: "immediates s = []" by simp
  from Message st have s': "s' = snd (handleMessage k m s)" by (simp add: step_def)
  show ?thesis
  proof (cases "k \<in> activeSessions s \<or> maxConcurrency s \<le> activeConcurrency s")
    case True
    then have "s' = enqueueMessage k m s" unfolding s' by (auto simp: handleMessage_def)
    with order_inv_enqueue[OF o] show ?thesis by simp
  next
    case False
    then have "s' = processClaudeQuery_enter Direct k m s"
      unfolding s' by (auto simp: handleMessage_def)
    with order_inv_enter_direct[OF o inv quiet, of k m] False show ?thesis by simp
  qed
next
  case Immediate
  with st obtain k m rest where im: "immediates s = (k, m) # rest"
    and s': "s' = processClaudeQuery_enter Deferred k m (s\<lparr> immediates := rest \<rparr>)"
    by (auto simp: step_def split: list.splits)
  from order_inv_immediate[OF o inv im] s' show ?thesis by simp
next
  case (Finished k m)
  with q have quiet: "immediates s = []" by simp
  from Finished st have ex: "(k, m) \<in> set (executions s)"
    and s': "s' = processClaudeQuery_finally k m s"
    by (auto simp: step_def split: if_splits)
  from order_inv_finally[OF o inv quiet ex] s' show ?thesis by simp
qed

lemma undisturbed_inv_run:
  "capacity_inv s \<Longrightarrow> order_inv s \<Longrightarrow> run_undisturbed es s = Some s' \<Longrightarrow>
   capacity_inv s' \<and> order_inv s'"
proof (induction es arbitrary: s)
  case Nil
  then show ?case by simp
next
  case (Cons e es)
  from Cons.prems(3) obtain s1 where q: "immediates s = [] \<or> e = Immediate"
    and st: "step e s = Some s1" and rn: "run_undisturbed es s1 = Some s'"
    by (auto split: if_splits option.splits)
  from Cons.IH[OF capacity_inv_step[OF Cons.prems(1) q st]
      order_inv_step[OF Cons.prems(2) Cons.prems(1) q st] rn]
  show ?case .
qed

lemma run_undisturbed_is_run: "run_undisturbed es s = Some s' \<Longrightarrow> run es s = Some s'"
  by (induction es arbitrary: s) (auto split: if_splits option.splits)

lemma undisturbed_runs_serialize:
  assumes "0 \<le> mx" and "run_undisturbed es (initial mx) = Some s"
  shows "run es (initial mx) = Some s"
    and "int (card (activeSessions s)) = activeConcurrency s"
    and "activeConcurrency s \<le> maxConcurrency s"
    and "distinct (map fst (executions s))"
    and "submitted_msgs k (history s) =
           released_msgs k (history s) @ running_msgs k (executions s) @
           awaiting_start k (immediates s) @ queue_of (sessionQueues s) k"
proof -
  from undisturbed_inv_run[OF capacity_inv_initial[OF assms(1)] order_inv_initial assms(2)]
  have c: "capacity_inv s" and o: "order_inv s" by simp_all
  show "run es (initial mx) = Some s" by (rule run_undisturbed_is_run[OF assms(2)])
  show "int (card (activeSessions s)) = activeConcurrency s" by (rule capacity_inv_base(2)[OF c])
  show "distinct (map fst (executions s))" by (rule capacity_inv_base(4)[OF c])
  show "activeConcurrency s \<le> maxConcurrency s"
  proof (cases "immediates s")
    case Nil
    from capacity_inv_quiet(1)[OF c Nil] show ?thesis .
  next
    case (Cons a rest)
    obtain k' m' where "a = (k', m')" by (cases a)
    with Cons capacity_inv_waiting(3)[OF c, of k' m' rest] show ?thesis by simp
  qed
  from o show "submitted_msgs k (history s) =
           released_msgs k (history s) @ running_msgs k (executions s) @
           awaiting_start k (immediates s) @ queue_of (sessionQueues s) k"
    by (simp add: order_inv_def)
qed

subsection \<open>A message handled before a deferred start\<close>

text \<open>
  C1.  With a cap of one, session A runs and a message of session B is queued.  A finishes:
  the release frees the slot and hands B's message to \<^verbatim>\<open>setImmediate\<close>.  A message of
  session C is handled before that callback runs and is admitted, since no session is
  active and the counter is zero.  The callback then starts B: two sessions are active
  under a cap of one.  When the message handled in between belongs to session A's own
  queued successor, the set holds one key and the counter is two.
\<close>

theorem deferred_start_exceeds_cap:
  "map_option (\<lambda>s. (activeSessions s, activeConcurrency s, maxConcurrency s))
     (run race_other_session (initial 1)) = Some ({''B'', ''C''}, 2, 1) \<and>
   map_option (\<lambda>s. (card (activeSessions s), activeConcurrency s))
     (run race_same_session (initial 1)) = Some (1, 2)"
  by (simp add: race_other_session_def race_same_session_def initial_def step_def
        handleMessage_def enqueueMessage_def processClaudeQuery_enter_def
        processClaudeQuery_finally_def processNextInQueue_def queue_of_def insert_commute)

text \<open>
  C2.  With the default cap of five, session A runs message 1 and message 2 is queued
  behind it.  Message 1 finishes and the release hands message 2 to \<^verbatim>\<open>setImmediate\<close>;
  session A is not active at that moment, so message 3 of session A, handled before the
  callback runs, is admitted.  The callback then starts message 2: two executions of
  session A run at once.
\<close>

theorem deferred_start_overlaps_session:
  "map_option (\<lambda>s. (activeSessions s, filter (\<lambda>(k, m). k = ''A'') (executions s)))
     (run race_same_session (initial 5)) = Some ({''A''}, [(''A'', 3), (''A'', 2)])"
  by (simp add: race_same_session_def initial_def step_def
        handleMessage_def enqueueMessage_def processClaudeQuery_enter_def
        processClaudeQuery_finally_def processNextInQueue_def queue_of_def)

text \<open>
  C6.  With a cap of two, sessions A and B run, and messages 2 and 3 of session A are
  queued behind message 1, in this order.  Message 1 ends: the release hands message 2 to
  \<^verbatim>\<open>setImmediate\<close>.  Before that callback runs the execution of B ends: session A is not
  active, so this release hands message 3 to \<^verbatim>\<open>setImmediate\<close> as well.  Both callbacks
  run, in the order 2, 3, and two executions of session A are under way; message 3 ends
  first.  The queued messages of A were submitted and dispatched in the order 2, 3 and
  complete in the order 3, 2.  The run is none in which deferred starts are not overtaken.
\<close>

theorem overlapping_executions_complete_out_of_order:
  "map_option (\<lambda>s. (activeSessions s, executions s)) (run race_overlap (initial 2))
     = Some ({''A''}, [(''A'', 2), (''A'', 3)]) \<and>
   map_option
     (\<lambda>s. (queued_msgs ''A'' (history s), dispatched_msgs ''A'' (history s),
           released_msgs ''A'' (history s)))
     (run race_completion (initial 2)) = Some ([2, 3], [2, 3], [1, 3, 2]) \<and>
   run_undisturbed race_completion (initial 2) = None"
  by (simp add: race_completion_def race_overlap_def initial_def step_def
        handleMessage_def enqueueMessage_def processClaudeQuery_enter_def
        processClaudeQuery_finally_def processNextInQueue_def queue_of_def
        queued_msgs_def dispatched_msgs_def released_msgs_def insert_Diff_if)


section \<open>Properties of the approval gate\<close>

subsection \<open>Resolving an approval\<close>

lemma respond_not_pending: "map_of (pending s) a = None \<Longrightarrow> respond a b msg s = s"
  by (simp add: respond_def)

lemma respond_pending:
  "map_of (pending s) a = Some p \<Longrightarrow>
   respond a b msg s =
     s\<lparr> pending := AList.delete a (pending s),
        responses := responses s @
          [\<lparr> response_of = httpRes p, statusCode = 200,
             payload = Some (if b then Allow else Deny, msg) \<rparr>] \<rparr>"
  by (simp add: respond_def write_response_def)

lemma pending_after_respond: "map_of (pending (respond a b msg s)) a = None"
  by (cases "map_of (pending s) a") (simp_all add: respond_pending respond_not_pending delete_conv')

lemma respond_other:
  "a' \<noteq> a \<Longrightarrow> map_of (pending (respond a b msg s)) a' = map_of (pending s) a'"
  by (cases "map_of (pending s) a") (simp_all add: respond_pending respond_not_pending)

lemma respond_frame:
  "approvedTools (respond a b msg s) = approvedTools s"
  "prompts (respond a b msg s) = prompts s"
  "timers (respond a b msg s) = timers s"
  "posting (respond a b msg s) = posting s"
  "updates (respond a b msg s) = updates s"
  "listening (respond a b msg s) = listening s"
  by (cases "map_of (pending s) a"; simp add: respond_pending respond_not_pending)+

lemma resolveApproval_not_pending:
  "map_of (pending s) a = None \<Longrightarrow> resolveApproval a b s = s"
  by (simp add: resolveApproval_def)

lemma pending_rememberApproval [simp]: "pending (rememberApproval t d s) = pending s"
  by (simp add: rememberApproval_def Let_def)

lemma responses_rememberApproval [simp]: "responses (rememberApproval t d s) = responses s"
  by (simp add: rememberApproval_def Let_def)

lemma pending_after_resolveApproval: "map_of (pending (resolveApproval a b s)) a = None"
  by (cases "map_of (pending s) a")
     (simp_all add: resolveApproval_def Let_def pending_after_respond)

lemma resolveApproval_other:
  "a' \<noteq> a \<Longrightarrow> map_of (pending (resolveApproval a b s)) a' = map_of (pending s) a'"
  by (cases "map_of (pending s) a")
     (simp_all add: resolveApproval_def Let_def respond_other)

lemma timeout_callback_not_pending:
  "map_of (pending s) a = None \<Longrightarrow> timeout_callback a s = s"
  by (simp add: timeout_callback_def)

lemma pending_after_timeout: "map_of (pending (timeout_callback a s)) a = None"
  by (simp add: timeout_callback_def pending_after_respond)

lemma timeout_other:
  "a' \<noteq> a \<Longrightarrow> map_of (pending (timeout_callback a s)) a' = map_of (pending s) a'"
  by (simp add: timeout_callback_def respond_other)

lemma resolve_not_pending: "map_of (pending s) a = None \<Longrightarrow> resolve r a s = s"
  by (cases r)
     (simp_all add: resolveApproval_not_pending timeout_callback_not_pending respond_not_pending)

lemma pending_after_resolve: "map_of (pending (resolve r a s)) a = None"
  by (cases r)
     (simp_all add: pending_after_resolveApproval pending_after_timeout pending_after_respond)


lemma stop_loop_keeps_resolved:
  "map_of (pending s) a = None \<Longrightarrow>
   map_of (pending (foldl (\<lambda>s' k. respond k False msg s') s ks)) a = None"
proof (induction ks arbitrary: s)
  case Nil
  then show ?case by simp
next
  case (Cons k ks)
  have "map_of (pending (respond k False msg s)) a = None"
    using Cons.prems by (cases "k = a") (simp_all add: pending_after_respond respond_other)
  then show ?case using Cons.IH by simp
qed

lemma postMessage_settled_keeps_resolved:
  "map_of (pending s) a = None \<Longrightarrow> map_of (pending (postMessage_settled a' out s)) a = None"
  by (cases out; cases "a' = a")
     (auto simp: postMessage_settled_def Let_def respond_other pending_after_respond update_conv'
        split: option.splits)

lemma handleRequest_keeps_resolved:
  "map_of (pending s) a = None \<Longrightarrow> a' \<noteq> a \<Longrightarrow>
   map_of (pending (handleRequest cwd req res a' s)) a = None"
  by (auto simp: handleRequest_def handlePermissionRequest_def write_response_def update_conv'
        split: request_body.splits)

lemma gate_step_keeps_resolved:
  assumes "gate_step cwd e (n, s) = Some (n', s')" and "map_of (pending s) a = None"
    and "\<not> creates a e"
  shows "map_of (pending s') a = None"
proof (cases e)
  case (Request req a')
  with assms show ?thesis by (auto simp: gate_step_def handleRequest_keeps_resolved)
next
  case (PostSettled a' out)
  with assms show ?thesis
    by (auto simp: gate_step_def postMessage_settled_keeps_resolved split: if_splits)
next
  case (TimerFires a')
  with assms show ?thesis
    by (cases "a' = a") (auto simp: gate_step_def pending_after_timeout timeout_other split: if_splits)
next
  case (Button a' b)
  with assms show ?thesis
    by (cases "a' = a") (auto simp: gate_step_def pending_after_resolveApproval resolveApproval_other)
next
  case ClearApprovals
  with assms show ?thesis by (auto simp: gate_step_def clearApprovals_def)
next
  case Stop
  with assms show ?thesis by (auto simp: gate_step_def stop_def stop_loop_keeps_resolved)
qed

lemma gate_run_keeps_resolved:
  "gate_run cwd es (n, s) = Some (n', s') \<Longrightarrow> map_of (pending s) a = None \<Longrightarrow>
   list_all (\<lambda>e. \<not> creates a e) es \<Longrightarrow> map_of (pending s') a = None"
proof (induction es arbitrary: n s)
  case Nil
  then show ?case by simp
next
  case (Cons e es)
  from Cons.prems(1) obtain n1 s1 where st: "gate_step cwd e (n, s) = Some (n1, s1)"
    and rn: "gate_run cwd es (n1, s1) = Some (n', s')"
    by (auto split: option.splits)
  from gate_step_keeps_resolved[OF st Cons.prems(2)] Cons.prems(3)
  have "map_of (pending s1) a = None" by simp
  with Cons.IH[OF rn] Cons.prems(3) show ?case by simp
qed


text \<open>
  C5.  Whatever resolves an approval id first (the approve button, the deny button, the
  timer, the shutdown loop), the id is not pending afterwards.  As long as no new request
  is filed under the same id, it stays so through every later step of the gate, and any
  further resolution of the id, by any of the four, returns the state as it is: no field
  changes and no response is written.  The shutdown loop does not visit the id, which is
  no key of \<open>pending\<close>.
\<close>

theorem second_resolution_is_noop:
  assumes "gate_run cwd es (n, resolve r1 a s) = Some (n', s')"
    and "list_all (\<lambda>e. \<not> creates a e) es"
  shows "map_of (pending (resolve r1 a s)) a = None \<and>
         resolve r2 a s' = s' \<and>
         a \<notin> set (map fst (pending s'))"
proof -
  have 1: "map_of (pending (resolve r1 a s)) a = None" by (rule pending_after_resolve)
  have 2: "map_of (pending s') a = None"
    by (rule gate_run_keeps_resolved[OF assms(1) 1 assms(2)])
  from 2 have 3: "a \<notin> set (map fst (pending s'))"
    by (simp add: map_of_eq_None_iff)
  show ?thesis using 1 2 3 by (simp add: resolve_not_pending)
qed

theorem second_resolution_is_noop_witness:
  "gate_run ''/srv/app'' [Button ''a1'' True, TimerFires ''a1'', Stop]
     (1, resolve HumanDenial ''a1'' prompted_example)
     = Some (1, (resolve HumanDenial ''a1'' prompted_example)\<lparr> timers := [], listening := False \<rparr>) \<and>
   list_all (\<lambda>e. \<not> creates ''a1'' e) [Button ''a1'' True, TimerFires ''a1'', Stop] \<and>
   responses (resolve HumanDenial ''a1'' prompted_example) = [deny_response 0 ''Denied by user''] \<and>
   resolve HumanApproval ''a1''
     ((resolve HumanDenial ''a1'' prompted_example)\<lparr> timers := [], listening := False \<rparr>)
     = (resolve HumanDenial ''a1'' prompted_example)\<lparr> timers := [], listening := False \<rparr>"
proof -
  have d: "resolve HumanDenial ''a1'' prompted_example =
      prompted_example\<lparr> pending := [], responses := [deny_response 0 ''Denied by user''],
        updates := [(''C1'', ''17.1'', False)] \<rparr>"
    by (simp add: prompted_example_def resolveApproval_def respond_def write_response_def
          truthy_def deny_response_def)
  have r: "gate_run ''/srv/app'' [Button ''a1'' True, TimerFires ''a1'', Stop]
     (1, resolve HumanDenial ''a1'' prompted_example)
     = Some (1, (resolve HumanDenial ''a1'' prompted_example)\<lparr> timers := [], listening := False \<rparr>)"
    unfolding d
    by (simp add: prompted_example_def gate_step_def resolveApproval_def timeout_callback_def
          stop_def)
  have l: "list_all (\<lambda>e. \<not> creates ''a1'' e) [Button ''a1'' True, TimerFires ''a1'', Stop]"
    by simp
  have n: "resolve HumanApproval ''a1''
     ((resolve HumanDenial ''a1'' prompted_example)\<lparr> timers := [], listening := False \<rparr>)
     = (resolve HumanDenial ''a1'' prompted_example)\<lparr> timers := [], listening := False \<rparr>"
    using second_resolution_is_noop[OF r l, of HumanApproval] by (rule conjunct1[OF conjunct2])
  have w: "responses (resolve HumanDenial ''a1'' prompted_example) =
      [deny_response 0 ''Denied by user'']"
    unfolding d by simp
  from r l w n show ?thesis by (intro conjI)
qed

subsection \<open>Malformed and stray requests\<close>

text \<open>
  C9.  A POST to \<^verbatim>\<open>/permission-request\<close> whose body does not parse is answered with
  status 400 and the body deny, \<^verbatim>\<open>Invalid request\<close>; the state is otherwise unchanged, in
  particular no approval becomes pending.  A request with another method or another path
  is answered with status 404 and no body.
\<close>

theorem malformed_or_stray_request:
  "(req_method req = ''POST'' \<and> req_url req = ''/permission-request'' \<and>
      req_body req = Unparseable \<longrightarrow>
      handleRequest cwd req res a s =
        s\<lparr> responses := responses s @
             [\<lparr> response_of = res, statusCode = 400,
                payload = Some (Deny, ''Invalid request'') \<rparr>] \<rparr> \<and>
      pending (handleRequest cwd req res a s) = pending s) \<and>
   (\<not> (req_method req = ''POST'' \<and> req_url req = ''/permission-request'') \<longrightarrow>
      handleRequest cwd req res a s =
        s\<lparr> responses := responses s @
             [\<lparr> response_of = res, statusCode = 404, payload = None \<rparr>] \<rparr>)"
  by (simp add: handleRequest_def write_response_def)


theorem malformed_or_stray_request_witness:
  "req_method malformed_request = ''POST'' \<and>
   req_url malformed_request = ''/permission-request'' \<and>
   req_body malformed_request = Unparseable \<and>
   handleRequest ''/srv/app'' malformed_request 1 ''a2'' prompted_example =
     prompted_example\<lparr> responses :=
       [\<lparr> response_of = 1, statusCode = 400, payload = Some (Deny, ''Invalid request'') \<rparr>] \<rparr> \<and>
   req_method stray_request \<noteq> ''POST'' \<and>
   handleRequest ''/srv/app'' stray_request 1 ''a2'' prompted_example =
     prompted_example\<lparr> responses :=
       [\<lparr> response_of = 1, statusCode = 404, payload = None \<rparr>] \<rparr>"
proof -
  have m: "req_method malformed_request = ''POST'' \<and>
      req_url malformed_request = ''/permission-request'' \<and>
      req_body malformed_request = Unparseable"
    by (simp add: malformed_request_def)
  have g: "\<not> (req_method stray_request = ''POST'' \<and>
      req_url stray_request = ''/permission-request'')"
    by (simp add: stray_request_def)
  have e: "responses prompted_example = []" by (simp add: prompted_example_def)
  note T1 = malformed_or_stray_request[of malformed_request "''/srv/app''" 1 "''a2''" prompted_example]
  note T2 = malformed_or_stray_request[of stray_request "''/srv/app''" 1 "''a2''" prompted_example]
  from T1 m have 1: "handleRequest ''/srv/app'' malformed_request 1 ''a2'' prompted_example =
     prompted_example\<lparr> responses := responses prompted_example @
       [\<lparr> response_of = 1, statusCode = 400, payload = Some (Deny, ''Invalid request'') \<rparr>] \<rparr>"
    by blast
  from T2 g have 2: "handleRequest ''/srv/app'' stray_request 1 ''a2'' prompted_example =
     prompted_example\<lparr> responses := responses prompted_example @
       [\<lparr> response_of = 1, statusCode = 404, payload = None \<rparr>] \<rparr>"
    by blast
  show ?thesis using m g 1 2 by (simp add: e stray_request_def)
qed

subsection \<open>Denials and Approval Memory\<close>

lemma stop_loop_frame:
  "approvedTools (foldl (\<lambda>s' k. respond k False msg s') s ks) = approvedTools s"
  by (induction ks arbitrary: s) (simp_all add: respond_frame)

lemma responses_respond_mono: "set (responses s) \<subseteq> set (responses (respond a b msg s))"
  by (cases "map_of (pending s) a") (auto simp: respond_pending respond_not_pending)

lemma stop_loop_mono:
  "set (responses s) \<subseteq> set (responses (foldl (\<lambda>s' k. respond k False msg s') s ks))"
proof (induction ks arbitrary: s)
  case Nil
  then show ?case by simp
next
  case (Cons k ks)
  show ?case using responses_respond_mono[of s k False msg] Cons.IH[of "respond k False msg s"]
    by auto
qed

lemma stop_loop_answers:
  "a \<in> set ks \<Longrightarrow> map_of (pending s) a = Some p \<Longrightarrow>
   deny_response (httpRes p) msg \<in> set (responses (foldl (\<lambda>s' k. respond k False msg s') s ks))"
proof (induction ks arbitrary: s)
  case Nil
  then show ?case by simp
next
  case (Cons k ks)
  show ?case
  proof (cases "k = a")
    case True
    have "deny_response (httpRes p) msg \<in> set (responses (respond a False msg s))"
      using Cons.prems(2) by (simp add: respond_pending deny_response_def)
    with stop_loop_mono[of "respond a False msg s" msg ks] True show ?thesis by auto
  next
    case False
    with Cons.prems have "a \<in> set ks" and "map_of (pending (respond k False msg s)) a = Some p"
      by (simp_all add: respond_other)
    from Cons.IH[OF this] show ?thesis by simp
  qed
qed

lemma stop_loop_empties:
  "fst ` set (pending (foldl (\<lambda>s' k. respond k False msg s') s ks)) \<subseteq> fst ` set (pending s) - set ks"
proof (induction ks arbitrary: s)
  case Nil
  then show ?case by simp
next
  case (Cons k ks)
  have "fst ` set (pending (respond k False msg s)) \<subseteq> fst ` set (pending s) - {k}"
  proof (cases "map_of (pending s) k")
    case None
    then have "k \<notin> fst ` set (pending s)" by (simp add: map_of_eq_None_iff)
    with None show ?thesis by (auto simp: respond_not_pending)
  next
    case (Some p)
    then show ?thesis
      using delete_notin_dom[of k "pending s"] dom_delete_subset[of k "pending s"]
      by (auto simp: respond_pending)
  qed
  with Cons.IH[of "respond k False msg s"] show ?case by auto
qed

lemma pending_stop: "pending (stop s) = []"
  using stop_loop_empties[of "''Server shutting down''" s "map fst (pending s)"]
  by (simp add: stop_def)

lemma remembered_rememberApproval:
  "remembered (rememberApproval t d s) = insert (d, t) (remembered s)"
  by (auto simp: remembered_def rememberApproval_def Let_def update_conv' split: option.splits if_splits)

lemma remembered_cong: "approvedTools s' = approvedTools s \<Longrightarrow> remembered s' = remembered s"
  by (simp add: remembered_def)

lemma approvedTools_resolveApproval:
  "approvedTools (resolveApproval a b s) =
     (case map_of (pending s) a of
        None \<Rightarrow> approvedTools s
      | Some p \<Rightarrow> if b \<and> truthy (workingDirectory p)
                  then approvedTools (rememberApproval (toolName p) (the (workingDirectory p)) s)
                  else approvedTools s)"
  by (simp add: resolveApproval_def Let_def respond_frame split: option.splits)

lemma approvedTools_postMessage_settled:
  "approvedTools (postMessage_settled a out s) = approvedTools s"
  by (cases out) (simp_all add: postMessage_settled_def Let_def respond_frame split: option.splits)

lemma approvedTools_handleRequest:
  "approvedTools (handleRequest cwd req res a s) = approvedTools s"
  by (simp add: handleRequest_def handlePermissionRequest_def write_response_def
        split: request_body.splits)

lemma approvedTools_timeout: "approvedTools (timeout_callback a s) = approvedTools s"
  by (simp add: timeout_callback_def respond_frame)

lemma approvedTools_stop: "approvedTools (stop s) = approvedTools s"
  by (simp add: stop_def stop_loop_frame)

lemma memory_grows_only_by_approval:
  assumes st: "gate_step cwd e (n, s) = Some (n', s')"
    and new: "(d, t) \<in> remembered s'" "(d, t) \<notin> remembered s"
  shows "\<exists>a p. e = Button a True \<and> map_of (pending s) a = Some p \<and>
               workingDirectory p = Some d \<and> d \<noteq> [] \<and> toolName p = t"
proof (cases e)
  case (Request req a)
  with st have "approvedTools s' = approvedTools s"
    by (auto simp: gate_step_def approvedTools_handleRequest)
  with new remembered_cong show ?thesis by blast
next
  case (PostSettled a out)
  with st have "approvedTools s' = approvedTools s"
    by (auto simp: gate_step_def approvedTools_postMessage_settled split: if_splits)
  with new remembered_cong show ?thesis by blast
next
  case (TimerFires a)
  with st have "approvedTools s' = approvedTools s"
    by (auto simp: gate_step_def approvedTools_timeout split: if_splits)
  with new remembered_cong show ?thesis by blast
next
  case (Button a b)
  with st have s': "s' = resolveApproval a b s" by (simp add: gate_step_def)
  show ?thesis
  proof (cases "map_of (pending s) a")
    case None
    with s' new show ?thesis by (simp add: resolveApproval_not_pending)
  next
    case (Some p)
    show ?thesis
    proof (cases "b \<and> truthy (workingDirectory p)")
      case True
      then obtain wd where wd: "workingDirectory p = Some wd" "wd \<noteq> []"
        by (auto simp: truthy_def split: option.splits)
      have "remembered s' = insert (wd, toolName p) (remembered s)"
        using s' Some True wd remembered_rememberApproval[of "toolName p" wd s]
              remembered_cong[of s' "rememberApproval (toolName p) wd s"]
        by (simp add: approvedTools_resolveApproval)
      with new have "d = wd" "t = toolName p" by auto
      with Button True Some wd show ?thesis by auto
    next
      case False
      with s' Some have "approvedTools s' = approvedTools s"
        by (auto simp: approvedTools_resolveApproval)
      with new remembered_cong show ?thesis by blast
    qed
  qed
next
  case ClearApprovals
  with st have "remembered s' = {}" by (auto simp: gate_step_def clearApprovals_def remembered_def)
  with new show ?thesis by simp
next
  case Stop
  with st have "approvedTools s' = approvedTools s"
    by (auto simp: gate_step_def approvedTools_stop)
  with new remembered_cong show ?thesis by blast
qed

lemma denial_resolutions:
  assumes "map_of (pending s) a = Some p"
  shows "approvedTools (resolveApproval a False s) = approvedTools s"
    and "responses (resolveApproval a False s) =
           responses s @ [deny_response (httpRes p) ''Denied by user'']"
    and "approvedTools (timeout_callback a s) = approvedTools s"
    and "responses (timeout_callback a s) =
           responses s @ [deny_response (httpRes p) ''Permission request timed out'']"
    and "approvedTools (stop s) = approvedTools s"
    and "deny_response (httpRes p) ''Server shutting down'' \<in> set (responses (stop s))"
proof -
  show "approvedTools (resolveApproval a False s) = approvedTools s"
    using assms by (simp add: approvedTools_resolveApproval)
  show "responses (resolveApproval a False s) =
           responses s @ [deny_response (httpRes p) ''Denied by user'']"
    using assms by (simp add: resolveApproval_def Let_def respond_pending deny_response_def)
  show "approvedTools (timeout_callback a s) = approvedTools s"
    by (rule approvedTools_timeout)
  show "responses (timeout_callback a s) =
           responses s @ [deny_response (httpRes p) ''Permission request timed out'']"
    using assms by (simp add: timeout_callback_def respond_pending deny_response_def)
  show "approvedTools (stop s) = approvedTools s" by (rule approvedTools_stop)
  from assms have "a \<in> set (map fst (pending s))"
    by (metis map_of_eq_None_iff option.distinct(1) set_map)
  from stop_loop_answers[OF this assms]
  show "deny_response (httpRes p) ''Server shutting down'' \<in> set (responses (stop s))"
    by (simp add: stop_def)
qed

text \<open>
  C8.  When a pending approval is resolved by the deny button, by the timer or by the
  shutdown, Approval Memory is the same afterwards and the held response is completed
  with behaviour deny and a message naming the cause; the three messages differ.  And in
  every step of the gate, a pair of directory and tool that Approval Memory holds
  afterwards and did not hold before comes from the approve button pressed for a pending
  approval of that tool which carries that directory, a non-empty string.
\<close>

theorem denials_leave_memory_untouched:
  assumes "map_of (pending s) a = Some p"
  shows "approvedTools (resolve HumanDenial a s) = approvedTools s \<and>
         responses (resolve HumanDenial a s) =
           responses s @ [deny_response (httpRes p) ''Denied by user''] \<and>
         approvedTools (resolve Timeout a s) = approvedTools s \<and>
         responses (resolve Timeout a s) =
           responses s @ [deny_response (httpRes p) ''Permission request timed out''] \<and>
         approvedTools (resolve Shutdown a s) = approvedTools s \<and>
         responses (resolve Shutdown a s) =
           responses s @ [deny_response (httpRes p) ''Server shutting down''] \<and>
         approvedTools (stop s) = approvedTools s \<and>
         deny_response (httpRes p) ''Server shutting down'' \<in> set (responses (stop s)) \<and>
         pending (stop s) = [] \<and>
         distinct [''Denied by user'', ''Permission request timed out'',
                   ''Server shutting down''] \<and>
         (\<forall>cwd e n n' s0 s' d t.
            gate_step cwd e (n, s0) = Some (n', s') \<and>
            (d, t) \<in> remembered s' \<and> (d, t) \<notin> remembered s0 \<longrightarrow>
            (\<exists>a' p'. e = Button a' True \<and> map_of (pending s0) a' = Some p' \<and>
                      workingDirectory p' = Some d \<and> d \<noteq> [] \<and> toolName p' = t))"
proof -
  note D = denial_resolutions[OF assms]
  have sh: "approvedTools (resolve Shutdown a s) = approvedTools s \<and>
         responses (resolve Shutdown a s) =
           responses s @ [deny_response (httpRes p) ''Server shutting down'']"
    using assms by (simp add: respond_pending deny_response_def)
  have only: "\<forall>cwd e n n' s0 s' d t.
            gate_step cwd e (n, s0) = Some (n', s') \<and>
            (d, t) \<in> remembered s' \<and> (d, t) \<notin> remembered s0 \<longrightarrow>
            (\<exists>a' p'. e = Button a' True \<and> map_of (pending s0) a' = Some p' \<and>
                      workingDirectory p' = Some d \<and> d \<noteq> [] \<and> toolName p' = t)"
    using memory_grows_only_by_approval by blast
  show ?thesis
    using D sh only pending_stop[of s] by simp
qed

theorem denials_leave_memory_untouched_witness:
  "map_of (pending prompted_example) ''a1'' =
     Some (snd (hd (pending prompted_example))) \<and>
   approvedTools (resolve HumanDenial ''a1'' prompted_example) = [] \<and>
   responses (resolve HumanDenial ''a1'' prompted_example) = [deny_response 0 ''Denied by user''] \<and>
   approvedTools (resolve Timeout ''a1'' prompted_example) = [] \<and>
   responses (resolve Timeout ''a1'' prompted_example) =
     [deny_response 0 ''Permission request timed out''] \<and>
   approvedTools (stop prompted_example) = [] \<and>
   deny_response 0 ''Server shutting down'' \<in> set (responses (stop prompted_example)) \<and>
   gate_step ''/srv/app'' (Button ''a1'' True) (1, prompted_example) =
     Some (1, resolveApproval ''a1'' True prompted_example) \<and>
   (''/repo'', ''Write'') \<in> remembered (resolveApproval ''a1'' True prompted_example) \<and>
   (''/repo'', ''Write'') \<notin> remembered prompted_example"
proof -
  have p: "map_of (pending prompted_example) ''a1'' = Some (snd (hd (pending prompted_example)))"
    by (simp add: prompted_example_def)
  have h: "httpRes (snd (hd (pending prompted_example))) = 0"
    and m: "approvedTools prompted_example = []" and r: "responses prompted_example = []"
    by (simp_all add: prompted_example_def)
  have st: "gate_step ''/srv/app'' (Button ''a1'' True) (1, prompted_example) =
     Some (1, resolveApproval ''a1'' True prompted_example)"
    by (simp add: gate_step_def)
  have new: "(''/repo'', ''Write'') \<in> remembered (resolveApproval ''a1'' True prompted_example)"
    by (simp add: remembered_def approvedTools_resolveApproval prompted_example_def truthy_def
          rememberApproval_def)
  have old: "(''/repo'', ''Write'') \<notin> remembered prompted_example"
    by (simp add: remembered_def prompted_example_def)
  show ?thesis
    using denials_leave_memory_untouched[OF p] p st new old by (simp add: h m r)
qed

subsection \<open>Each response object is answered at most once\<close>

lemma gate_inv_iff:
  "gate_inv (n, s) \<longleftrightarrow>
     distinct (held s) \<and> (\<forall>h \<in> set (held s). h < n \<and> answers h s = []) \<and>
     (\<forall>r \<in> set (responses s). response_of r < n)"
  by (simp add: gate_inv_def list_all_iff)

lemma answers_nil_iff: "answers h s = [] \<longleftrightarrow> h \<notin> response_of ` set (responses s)"
  by (auto simp: answers_def filter_empty_conv)

lemma map_delete_sub:
  "set (map f (AList.delete k ps)) \<subseteq> set (map f ps)"
  by (auto simp: AList.delete_eq)

lemma distinct_map_delete:
  "distinct (map f ps) \<Longrightarrow> distinct (map f (AList.delete k ps))"
  by (simp add: AList.delete_eq distinct_map_filter)

lemma delete_drops_handle:
  assumes "distinct (map f ps)" and "(k, v) \<in> set ps"
  shows "f (k, v) \<notin> set (map f (AList.delete k ps))"
proof
  assume "f (k, v) \<in> set (map f (AList.delete k ps))"
  then obtain x where x: "x \<in> set ps" "fst x \<noteq> k" "f x = f (k, v)"
    by (auto simp: AList.delete_eq)
  from assms(1) have "inj_on f (set ps)" by (simp add: distinct_map)
  with x assms(2) have "x = (k, v)" by (auto dest: inj_onD)
  with x show False by simp
qed

lemma update_set_sub: "set (AList.update k v ps) \<subseteq> insert (k, v) (set ps)"
  by (induction ps) auto

lemma distinct_map_update:
  "distinct (map f ps) \<Longrightarrow> f (k, v) \<notin> f ` set ps \<Longrightarrow> distinct (map f (AList.update k v ps))"
proof (induction ps)
  case Nil
  then show ?case by simp
next
  case (Cons p ps)
  then show ?case
    using update_set_sub[of k v ps] by (cases p) (auto simp: image_iff)
qed

lemma map_update_same:
  "map_of ps k = Some p \<Longrightarrow> f (k, v) = f (k, p) \<Longrightarrow> map f (AList.update k v ps) = map f ps"
  by (induction ps) (auto split: if_splits)


lemma held_cong: "pending s' = pending s \<Longrightarrow> held s' = held s"
  by (simp add: held_def)

lemma answers_cong: "responses s' = responses s \<Longrightarrow> answers h s' = answers h s"
  by (simp add: answers_def)

lemma held_mem: "map_of (pending s) a = Some p \<Longrightarrow> httpRes p \<in> set (held s)"
  by (force simp: held_def dest: map_of_SomeD)

lemma held_respond:
  assumes "map_of (pending s) a = Some p" and "distinct (held s)"
  shows "set (held (respond a b msg s)) \<subseteq> set (held s) - {httpRes p}"
    and "distinct (held (respond a b msg s))"
proof -
  let ?f = "\<lambda>e :: string \<times> PendingPermission. httpRes (snd e)"
  from assms(1) have mem: "(a, p) \<in> set (pending s)" by (rule map_of_SomeD)
  from assms(2) have d: "distinct (map ?f (pending s))" by (simp add: held_def)
  have h: "held (respond a b msg s) = map ?f (AList.delete a (pending s))"
    by (simp add: respond_pending[OF assms(1)] held_def)
  from delete_drops_handle[OF d mem] map_delete_sub[of ?f a "pending s"]
  show "set (held (respond a b msg s)) \<subseteq> set (held s) - {httpRes p}"
    unfolding h by (force simp: held_def)
  show "distinct (held (respond a b msg s))"
    unfolding h by (rule distinct_map_delete[OF d])
qed

lemma held_update_same:
  "map_of (pending s) a = Some p \<Longrightarrow> httpRes p' = httpRes p \<Longrightarrow>
   pending s' = AList.update a p' (pending s) \<Longrightarrow> held s' = held s"
  unfolding held_def using map_update_same[of "pending s" a p "\<lambda>e. httpRes (snd e)" p']
  by simp

lemma held_update_new:
  assumes "pending s' = AList.update a p (pending s)" and "distinct (held s)"
    and "httpRes p \<notin> set (held s)"
  shows "distinct (held s')" and "set (held s') \<subseteq> insert (httpRes p) (set (held s))"
proof -
  let ?f = "\<lambda>e :: string \<times> PendingPermission. httpRes (snd e)"
  from assms(3) have fresh: "?f (a, p) \<notin> ?f ` set (pending s)" by (simp add: held_def)
  from assms(2) have d: "distinct (map ?f (pending s))" by (simp add: held_def)
  from distinct_map_update[OF d fresh] show "distinct (held s')"
    by (simp add: held_def assms(1))
  from update_set_sub[of a p "pending s"]
  show "set (held s') \<subseteq> insert (httpRes p) (set (held s))"
    by (auto simp: held_def assms(1))
qed

lemma gate_inv_respond: "gate_inv (n, s) \<Longrightarrow> gate_inv (n, respond a b msg s)"
proof (cases "map_of (pending s) a")
  case None
  assume "gate_inv (n, s)"
  with None show ?thesis by (simp add: respond_not_pending)
next
  case (Some p)
  assume inv: "gate_inv (n, s)"
  from inv have d: "distinct (held s)" by (simp add: gate_inv_iff)
  note H = held_respond[OF Some d, of b msg]
  have r: "responses (respond a b msg s) = responses s @
          [\<lparr> response_of = httpRes p, statusCode = 200,
             payload = Some (if b then Allow else Deny, msg) \<rparr>]"
    by (simp add: respond_pending[OF Some])
  from held_mem[OF Some] inv have lt: "httpRes p < n" by (simp add: gate_inv_iff)
  have "\<forall>h \<in> set (held (respond a b msg s)). h < n \<and> answers h (respond a b msg s) = []"
  proof
    fix h assume "h \<in> set (held (respond a b msg s))"
    with H(1) have "h \<in> set (held s)" "h \<noteq> httpRes p" by auto
    with inv show "h < n \<and> answers h (respond a b msg s) = []"
      by (auto simp: gate_inv_iff answers_def r)
  qed
  moreover have "\<forall>x \<in> set (responses (respond a b msg s)). response_of x < n"
    using inv lt by (auto simp: gate_inv_iff r)
  ultimately show ?thesis using H(2) by (simp add: gate_inv_iff)
qed

lemma held_respond_sub: "set (held (respond a b msg s)) \<subseteq> set (held s)"
  using map_delete_sub[of "\<lambda>e. httpRes (snd e)" a "pending s"]
  by (cases "map_of (pending s) a") (auto simp: respond_pending respond_not_pending held_def)

lemma answers_respond:
  "h \<notin> set (held s) \<Longrightarrow> answers h (respond a b msg s) = answers h s"
proof (cases "map_of (pending s) a")
  case None
  then show ?thesis by (simp add: respond_not_pending)
next
  case (Some p)
  assume h: "h \<notin> set (held s)"
  with held_mem[OF Some] have "httpRes p \<noteq> h" by auto
  then show ?thesis by (simp add: respond_pending[OF Some] answers_def)
qed

lemma gate_inv_frame:
  "pending s' = pending s \<Longrightarrow> responses s' = responses s \<Longrightarrow> gate_inv (n, s') = gate_inv (n, s)"
  by (simp add: gate_inv_iff held_def answers_def)

lemma resolveApproval_as_respond:
  assumes "map_of (pending s) a = Some p"
  obtains s2 where
    "resolveApproval a b s = respond a b (if b then ''Approved by user'' else ''Denied by user'') s2"
    "pending s2 = pending s" "responses s2 = responses s"
  using assms by (auto simp: resolveApproval_def Let_def)

lemma gate_inv_resolveApproval: "gate_inv (n, s) \<Longrightarrow> gate_inv (n, resolveApproval a b s)"
proof (cases "map_of (pending s) a")
  case None
  assume "gate_inv (n, s)"
  with None show ?thesis by (simp add: resolveApproval_not_pending)
next
  case (Some p)
  assume inv: "gate_inv (n, s)"
  from resolveApproval_as_respond[OF Some, of b] obtain s2 where
    s2: "resolveApproval a b s = respond a b (if b then ''Approved by user'' else ''Denied by user'') s2"
    and fr: "pending s2 = pending s" "responses s2 = responses s" by metis
  from gate_inv_frame[OF fr] inv have "gate_inv (n, s2)" by simp
  then show ?thesis unfolding s2 by (rule gate_inv_respond)
qed

lemma held_resolveApproval_sub: "set (held (resolveApproval a b s)) \<subseteq> set (held s)"
proof (cases "map_of (pending s) a")
  case None
  then show ?thesis by (simp add: resolveApproval_not_pending)
next
  case (Some p)
  from resolveApproval_as_respond[OF Some, of b] obtain s2 where
    s2: "resolveApproval a b s = respond a b (if b then ''Approved by user'' else ''Denied by user'') s2"
    and fr: "pending s2 = pending s" "responses s2 = responses s" by metis
  from held_respond_sub[of a b _ s2] held_cong[OF fr(1)] show ?thesis unfolding s2 by simp
qed

lemma answers_resolveApproval:
  "h \<notin> set (held s) \<Longrightarrow> answers h (resolveApproval a b s) = answers h s"
proof (cases "map_of (pending s) a")
  case None
  then show ?thesis by (simp add: resolveApproval_not_pending)
next
  case (Some p)
  assume h: "h \<notin> set (held s)"
  from resolveApproval_as_respond[OF Some, of b] obtain s2 where
    s2: "resolveApproval a b s = respond a b (if b then ''Approved by user'' else ''Denied by user'') s2"
    and fr: "pending s2 = pending s" "responses s2 = responses s" by metis
  from h held_cong[OF fr(1)] have "h \<notin> set (held s2)" by simp
  from answers_respond[OF this] answers_cong[OF fr(2)] show ?thesis unfolding s2 by simp
qed

lemma stop_loop_inv:
  "gate_inv (n, s) \<Longrightarrow> gate_inv (n, foldl (\<lambda>s' k. respond k False msg s') s ks)"
  by (induction ks arbitrary: s) (simp_all add: gate_inv_respond)

lemma stop_loop_held_sub:
  "set (held (foldl (\<lambda>s' k. respond k False msg s') s ks)) \<subseteq> set (held s)"
proof (induction ks arbitrary: s)
  case Nil
  then show ?case by simp
next
  case (Cons k ks)
  show ?case using Cons.IH[of "respond k False msg s"] held_respond_sub[of k False msg s] by auto
qed

lemma stop_loop_answers_same:
  "h \<notin> set (held s) \<Longrightarrow> answers h (foldl (\<lambda>s' k. respond k False msg s') s ks) = answers h s"
proof (induction ks arbitrary: s)
  case Nil
  then show ?case by simp
next
  case (Cons k ks)
  from Cons.prems held_respond_sub[of k False msg s]
  have "h \<notin> set (held (respond k False msg s))" by auto
  from Cons.IH[OF this] answers_respond[OF Cons.prems] show ?case by simp
qed

lemma postMessage_settled_cases:
  obtains (same) s1 where "postMessage_settled a out s = s1\<lparr> timers := timers s1 @ [a] \<rparr>"
      "held s1 = held s" "responses s1 = responses s"
  | (failed) "postMessage_settled a out s =
       (respond a False ''Failed to send Slack message'' s)
         \<lparr> timers := timers (respond a False ''Failed to send Slack message'' s) @ [a] \<rparr>"
proof (cases out)
  case (Posted ts)
  show ?thesis
  proof (cases "truthy ts \<and> map_of (pending s) a \<noteq> None")
    case True
    then obtain p where p: "map_of (pending s) a = Some p" by auto
    let ?s1 = "s\<lparr> pending := AList.update a (p\<lparr> messageTs := ts \<rparr>) (pending s) \<rparr>"
    have "held ?s1 = held s" by (rule held_update_same[OF p]) simp_all
    moreover have "postMessage_settled a out s = ?s1\<lparr> timers := timers ?s1 @ [a] \<rparr>"
      using Posted True p by (simp add: postMessage_settled_def)
    ultimately show ?thesis using same[of ?s1] by simp
  next
    case False
    then have "postMessage_settled a out s = s\<lparr> timers := timers s @ [a] \<rparr>"
      using Posted by (auto simp: postMessage_settled_def split: option.splits)
    then show ?thesis using same[of s] by simp
  qed
next
  case PostFailed
  then show ?thesis using failed by (simp add: postMessage_settled_def Let_def)
qed

lemma gate_inv_timers: "gate_inv (n, s\<lparr> timers := t \<rparr>) = gate_inv (n, s)"
  by (simp add: gate_inv_iff held_def answers_def)

lemma held_timers [simp]: "held (s\<lparr> timers := t \<rparr>) = held s"
  by (simp add: held_def)

lemma answers_timers [simp]: "answers h (s\<lparr> timers := t \<rparr>) = answers h s"
  by (simp add: answers_def)

lemma held_posting [simp]: "held (s\<lparr> posting := t \<rparr>) = held s"
  by (simp add: held_def)

lemma answers_posting [simp]: "answers h (s\<lparr> posting := t \<rparr>) = answers h s"
  by (simp add: answers_def)

lemma gate_inv_posting: "gate_inv (n, s\<lparr> posting := t \<rparr>) = gate_inv (n, s)"
  by (simp add: gate_inv_iff)

lemma gate_inv_postMessage_settled:
  assumes inv: "gate_inv (n, s)" shows "gate_inv (n, postMessage_settled a out s)"
proof (rule postMessage_settled_cases[where a=a and out=out and s=s], goal_cases)
  case (1 s1)
  from inv 1(2,3) have "gate_inv (n, s1)" by (simp add: gate_inv_iff answers_def)
  then show ?thesis unfolding 1(1) by (simp add: gate_inv_timers)
next
  case 2
  show ?thesis unfolding 2 by (simp add: gate_inv_timers gate_inv_respond[OF inv])
qed

lemma held_postMessage_settled_sub: "set (held (postMessage_settled a out s)) \<subseteq> set (held s)"
proof (rule postMessage_settled_cases[where a=a and out=out and s=s], goal_cases)
  case (1 s1)
  then show ?thesis by simp
next
  case 2
  show ?thesis unfolding 2 using held_respond_sub[of a False _ s] by simp
qed

lemma answers_postMessage_settled:
  assumes "h \<notin> set (held s)" shows "answers h (postMessage_settled a out s) = answers h s"
proof (rule postMessage_settled_cases[where a=a and out=out and s=s], goal_cases)
  case (1 s1)
  then show ?thesis by (simp add: answers_def)
next
  case 2
  show ?thesis unfolding 2 using answers_respond[OF assms] by simp
qed

lemma handleRequest_cases:
  obtains (ignored) "handleRequest cwd req res a s = s"
  | (written) st c where "handleRequest cwd req res a s = write_response res st c s"
  | (created) p pr po where
      "handleRequest cwd req res a s =
         s\<lparr> pending := AList.update a p (pending s), prompts := pr, posting := po \<rparr>"
      "httpRes p = res"
proof (cases "req_method req = ''POST'' \<and> req_url req = ''/permission-request''")
  case False
  then have "handleRequest cwd req res a s = write_response res 404 None s"
    by (auto simp: handleRequest_def)
  then show ?thesis by (rule written)
next
  case True
  show ?thesis
  proof (cases "req_body req")
    case Unparseable
    with True have "handleRequest cwd req res a s =
        write_response res 400 (Some (Deny, ''Invalid request'')) s"
      by (simp add: handleRequest_def)
    then show ?thesis by (rule written)
  next
    case JsonNull
    with True have "handleRequest cwd req res a s = s" by (simp add: handleRequest_def)
    then show ?thesis by (rule ignored)
  next
    case (Json data)
    show ?thesis
    proof (cases "truthy (working_directory data) \<and>
         isAutoApproved cwd (tool_name data) (request_input data)
           (the (working_directory data)) s")
      case auto: True
      with True Json have "handleRequest cwd req res a s =
          write_response res 200
            (Some (Allow, ''Auto-approved (previously approved for this directory)'')) s"
        by (simp add: handleRequest_def handlePermissionRequest_def)
      then show ?thesis by (rule written)
    next
      case False
      have "handleRequest cwd req res a s =
          s\<lparr> pending := AList.update a
                  \<lparr> httpRes = res, channel = request_channel data,
                    threadTs = thread_ts data, user = request_user data,
                    toolName = tool_name data, input = request_input data,
                    workingDirectory = working_directory data, messageTs = None \<rparr>
                  (pending s),
              prompts := prompts s @
                [\<lparr> prompt_approval = a,
                   prompt_channel =
                     (if request_channel data \<noteq> [] then request_channel data
                      else ''general''),
                   prompt_thread = thread_ts data,
                   prompt_tool = tool_name data,
                   prompt_directory = working_directory data \<rparr>],
              posting := posting s @ [a] \<rparr>"
        using True Json False by (auto simp: handleRequest_def handlePermissionRequest_def)
      then show ?thesis by (rule created) simp
    qed
  qed
qed

lemma gate_inv_handleRequest:
  assumes inv: "gate_inv (n, s)" shows "gate_inv (Suc n, handleRequest cwd req n a s)"
proof (rule handleRequest_cases[where cwd=cwd and req=req and res=n and a=a and s=s], goal_cases)
  case ignored: 1
  with inv show ?thesis by (auto simp: gate_inv_iff less_Suc_eq)
next
  case written: (2 st c)
  have "held (write_response n st c s) = held s" by (simp add: held_def write_response_def)
  moreover have "\<And>h. h < n \<Longrightarrow> answers h (write_response n st c s) = answers h s"
    by (simp add: answers_def write_response_def)
  ultimately show ?thesis unfolding written using inv
    by (auto simp: gate_inv_iff less_Suc_eq write_response_def)
next
  case created: (3 p pr po)
  let ?s' = "s\<lparr> pending := AList.update a p (pending s), prompts := pr, posting := po \<rparr>"
  from inv have d: "distinct (held s)" and fresh: "httpRes p \<notin> set (held s)"
    using created(2) by (auto simp: gate_inv_iff)
  have pe: "pending ?s' = AList.update a p (pending s)" by simp
  note H = held_update_new[OF pe d fresh]
  have ans: "\<And>h. answers h ?s' = answers h s" by (simp add: answers_def)
  have "\<forall>h \<in> set (held ?s'). h < Suc n \<and> answers h ?s' = []"
  proof
    fix h assume "h \<in> set (held ?s')"
    with H(2) have "h = n \<or> h \<in> set (held s)" using created(2) by auto
    then show "h < Suc n \<and> answers h ?s' = []"
    proof
      assume "h = n"
      with inv show ?thesis unfolding ans by (auto simp: gate_inv_iff answers_nil_iff)
    next
      assume "h \<in> set (held s)"
      with inv show ?thesis unfolding ans by (auto simp: gate_inv_iff less_Suc_eq)
    qed
  qed
  moreover have "\<forall>r \<in> set (responses ?s'). response_of r < Suc n"
    using inv by (auto simp: gate_inv_iff less_Suc_eq)
  ultimately show ?thesis unfolding created(1) using H(1) by (simp add: gate_inv_iff)
qed

lemma held_handleRequest:
  "set (held (handleRequest cwd req n a s)) \<subseteq> insert n (set (held s))"
proof (rule handleRequest_cases[where cwd=cwd and req=req and res=n and a=a and s=s], goal_cases)
  case ignored: 1
  then show ?thesis by auto
next
  case written: (2 st c)
  then show ?thesis by (auto simp: held_def write_response_def)
next
  case created: (3 p pr po)
  from update_set_sub[of a p "pending s"] created(2)
  show ?thesis unfolding created(1) by (auto simp: held_def)
qed

lemma answers_handleRequest:
  "h \<noteq> n \<Longrightarrow> answers h (handleRequest cwd req n a s) = answers h s"
  by (rule handleRequest_cases[where cwd=cwd and req=req and res=n and a=a and s=s])
     (auto simp: answers_def write_response_def)


lemma gate_inv_initial: "gate_inv (0, gate_initial)"
  by (simp add: gate_inv_iff gate_initial_def held_def)

lemma gate_inv_timeout: "gate_inv (n, s) \<Longrightarrow> gate_inv (n, timeout_callback a s)"
  by (simp add: timeout_callback_def gate_inv_respond)

lemma gate_inv_stop: "gate_inv (n, s) \<Longrightarrow> gate_inv (n, stop s)"
  using stop_loop_inv[of n s "''Server shutting down''" "map fst (pending s)"]
  by (simp add: stop_def gate_inv_iff held_def answers_def)

lemma gate_inv_step:
  assumes "gate_inv c" and "gate_step cwd e c = Some c'"
  shows "gate_inv c'"
proof -
  obtain n s where c: "c = (n, s)" by (cases c)
  show ?thesis
  proof (cases e)
    case (Request req a)
    with assms c show ?thesis by (auto simp: gate_step_def gate_inv_handleRequest)
  next
    case (PostSettled a out)
    with assms c show ?thesis
      by (auto simp: gate_step_def gate_inv_postMessage_settled gate_inv_posting split: if_splits)
  next
    case (TimerFires a)
    with assms c show ?thesis
      by (auto simp: gate_step_def gate_inv_timeout gate_inv_timers split: if_splits)
  next
    case (Button a b)
    with assms c show ?thesis by (auto simp: gate_step_def gate_inv_resolveApproval)
  next
    case ClearApprovals
    with assms c show ?thesis
      by (auto simp: gate_step_def clearApprovals_def gate_inv_iff held_def answers_def)
  next
    case Stop
    with assms c show ?thesis by (auto simp: gate_step_def gate_inv_stop)
  qed
qed

lemma gate_inv_run: "gate_inv c \<Longrightarrow> gate_run cwd es c = Some c' \<Longrightarrow> gate_inv c'"
  by (induction es arbitrary: c) (auto split: option.splits dest: gate_inv_step)

lemma held_timeout_sub: "set (held (timeout_callback a s)) \<subseteq> set (held s)"
  using held_respond_sub[of a False _ s] by (simp add: timeout_callback_def)

lemma answers_timeout: "h \<notin> set (held s) \<Longrightarrow> answers h (timeout_callback a s) = answers h s"
  by (simp add: timeout_callback_def answers_respond)

lemma held_stop_sub: "set (held (stop s)) \<subseteq> set (held s)"
  using stop_loop_held_sub[of "''Server shutting down''" s "map fst (pending s)"]
  by (simp add: stop_def held_def)

lemma answers_stop: "h \<notin> set (held s) \<Longrightarrow> answers h (stop s) = answers h s"
  using stop_loop_answers_same[of h s "''Server shutting down''" "map fst (pending s)"]
  by (simp add: stop_def answers_def)

lemma settled_step:
  assumes st: "settled h (n, s)" and step: "gate_step cwd e (n, s) = Some (n', s')"
  shows "settled h (n', s') \<and> answers h s' = answers h s"
proof -
  from st have inv: "gate_inv (n, s)" and lt: "h < n" and nh: "h \<notin> set (held s)"
    by (simp_all add: settled_def)
  from gate_inv_step[OF inv step] have inv': "gate_inv (n', s')" .
  have "n \<le> n' \<and> h \<notin> set (held s') \<and> answers h s' = answers h s"
  proof (cases e)
    case (Request req a)
    with step have e: "n' = Suc n" "s' = handleRequest cwd req n a s"
      by (auto simp: gate_step_def)
    from lt have "h \<noteq> n" by simp
    with held_handleRequest[of cwd req n a s] nh answers_handleRequest[of h n cwd req a s] e
    show ?thesis by auto
  next
    case (PostSettled a out)
    with step have e: "n' = n"
      "s' = postMessage_settled a out (s\<lparr> posting := remove1 a (posting s) \<rparr>)"
      by (auto simp: gate_step_def split: if_splits)
    let ?s0 = "s\<lparr> posting := remove1 a (posting s) \<rparr>"
    from nh have "h \<notin> set (held ?s0)" by simp
    with held_postMessage_settled_sub[of a out ?s0] answers_postMessage_settled[of h ?s0 a out] e
    show ?thesis by auto
  next
    case (TimerFires a)
    with step have e: "n' = n" "s' = timeout_callback a (s\<lparr> timers := remove1 a (timers s) \<rparr>)"
      by (auto simp: gate_step_def split: if_splits)
    let ?s0 = "s\<lparr> timers := remove1 a (timers s) \<rparr>"
    from nh have "h \<notin> set (held ?s0)" by simp
    with held_timeout_sub[of a ?s0] answers_timeout[of h ?s0 a] e
    show ?thesis by auto
  next
    case (Button a b)
    with step have e: "n' = n" "s' = resolveApproval a b s" by (auto simp: gate_step_def)
    with held_resolveApproval_sub[of a b s] answers_resolveApproval[OF nh, of a b] nh
    show ?thesis by auto
  next
    case ClearApprovals
    with step nh show ?thesis
      by (auto simp: gate_step_def clearApprovals_def held_def answers_def)
  next
    case Stop
    with step have e: "n' = n" "s' = stop s" by (auto simp: gate_step_def)
    with held_stop_sub[of s] answers_stop[OF nh] nh show ?thesis by auto
  qed
  with inv' lt show ?thesis by (simp add: settled_def)
qed

lemma settled_run:
  "settled h (n, s) \<Longrightarrow> gate_run cwd es (n, s) = Some (n', s') \<Longrightarrow> answers h s' = answers h s"
proof (induction es arbitrary: n s)
  case Nil
  then show ?case by simp
next
  case (Cons e es)
  from Cons.prems(2) obtain n1 s1 where st: "gate_step cwd e (n, s) = Some (n1, s1)"
    and rn: "gate_run cwd es (n1, s1) = Some (n', s')"
    by (auto split: option.splits)
  from settled_step[OF Cons.prems(1) st] Cons.IH[OF _ rn] show ?case by simp
qed


lemma timer_denies_once:
  assumes reach: "gate_run cwd es (0, gate_initial) = Some (n, s)"
    and pend: "map_of (pending s) a = Some p"
    and later: "gate_run cwd (TimerFires a # es') (n, s) = Some (n', s')"
  shows "answers (httpRes p) s = [] \<and>
         answers (httpRes p) s' = [deny_response (httpRes p) ''Permission request timed out'']"
proof -
  let ?h = "httpRes p"
  let ?s0 = "s\<lparr> timers := remove1 a (timers s) \<rparr>"
  let ?s1 = "timeout_callback a ?s0"
  from gate_inv_run[OF gate_inv_initial reach] have inv: "gate_inv (n, s)" .
  from inv held_mem[OF pend] have none: "answers ?h s = []" and lt: "?h < n"
    by (simp_all add: gate_inv_iff)
  from later have rn: "gate_run cwd es' (n, ?s1) = Some (n', s')"
    by (auto simp: gate_step_def split: if_splits)
  have pend0: "map_of (pending ?s0) a = Some p" using pend by simp
  have s1: "?s1 = respond a False ''Permission request timed out'' ?s0"
    using pend0 by (simp add: timeout_callback_def)
  from inv have inv0: "gate_inv (n, ?s0)" by (simp add: gate_inv_timers)
  then have d0: "distinct (held ?s0)" by (simp add: gate_inv_iff)
  have one: "answers ?h ?s1 = [deny_response ?h ''Permission request timed out'']"
    using none unfolding s1 by (simp add: respond_pending[OF pend0] answers_def deny_response_def)
  from held_respond(1)[OF pend0 d0] have gone: "?h \<notin> set (held ?s1)"
    unfolding s1 by auto
  from gate_inv_timeout[OF inv0] gone lt have "settled ?h (n, ?s1)"
    by (simp add: settled_def)
  from settled_run[OF this rn] one none show ?thesis by simp
qed


subsection \<open>Every pending approval has its timer\<close>

lemma armed_iff:
  "armed s \<longleftrightarrow>
     (\<forall>a. map_of (pending s) a \<noteq> None \<longrightarrow> a \<in> set (posting s) \<or> a \<in> set (timers s))"
proof -
  have "\<And>a. map_of (pending s) a \<noteq> None \<longleftrightarrow> a \<in> set (map fst (pending s))"
    by (simp add: map_of_eq_None_iff)
  then show ?thesis by (auto simp: armed_def list_all_iff)
qed

lemma stop_loop_timers:
  "timers (foldl (\<lambda>s' k. respond k False msg s') s ks) = timers s \<and>
   posting (foldl (\<lambda>s' k. respond k False msg s') s ks) = posting s"
  by (induction ks arbitrary: s) (simp_all add: respond_frame)

lemma stop_timers: "timers (stop s) = timers s" "posting (stop s) = posting s"
  by (simp_all add: stop_def stop_loop_timers)

lemma resolveApproval_timers:
  "timers (resolveApproval a b s) = timers s" "posting (resolveApproval a b s) = posting s"
  by (simp_all add: resolveApproval_def rememberApproval_def Let_def respond_frame
        split: option.splits)

lemma postMessage_settled_timers:
  "timers (postMessage_settled a out s) = timers s @ [a]"
  "posting (postMessage_settled a out s) = posting s"
  by (cases out; simp add: postMessage_settled_def Let_def respond_frame split: option.splits)+

lemma timeout_callback_timers:
  "timers (timeout_callback a s) = timers s" "posting (timeout_callback a s) = posting s"
  by (simp_all add: timeout_callback_def respond_frame)

lemma handleRequest_armed:
  assumes "map_of (pending (handleRequest cwd req res a s)) b \<noteq> None"
  shows "map_of (pending s) b \<noteq> None \<or> b \<in> set (posting (handleRequest cwd req res a s))"
    and "set (posting s) \<subseteq> set (posting (handleRequest cwd req res a s))"
    and "timers (handleRequest cwd req res a s) = timers s"
  using assms
  by (auto simp: handleRequest_def handlePermissionRequest_def write_response_def update_conv'
        split: request_body.splits if_splits)

lemma armed_step:
  assumes inv: "armed s" and st: "gate_step cwd e (n, s) = Some (n', s')"
  shows "armed s'"
  unfolding armed_iff
proof (intro allI impI)
  fix b assume pb: "map_of (pending s') b \<noteq> None"
  note I = inv[unfolded armed_iff, rule_format]
  show "b \<in> set (posting s') \<or> b \<in> set (timers s')"
  proof (cases e)
    case (Request req a)
    with st have s': "s' = handleRequest cwd req n a s" by (simp add: gate_step_def)
    from handleRequest_armed[OF pb[unfolded s']] I[of b] show ?thesis
      unfolding s' by auto
  next
    case (PostSettled a out)
    with st have s': "s' = postMessage_settled a out (s\<lparr> posting := remove1 a (posting s) \<rparr>)"
      by (auto simp: gate_step_def split: if_splits)
    show ?thesis
    proof (cases "b = a")
      case True
      then show ?thesis unfolding s' by (simp add: postMessage_settled_timers)
    next
      case False
      from gate_step_keeps_resolved[OF st, of b] pb PostSettled
      have "map_of (pending s) b \<noteq> None" by auto
      from I[OF this] False show ?thesis
        unfolding s' by (auto simp: postMessage_settled_timers)
    qed
  next
    case (TimerFires a)
    with st have s': "s' = timeout_callback a (s\<lparr> timers := remove1 a (timers s) \<rparr>)"
      by (auto simp: gate_step_def split: if_splits)
    have ne: "b \<noteq> a"
    proof
      assume "b = a"
      with pb show False unfolding s' by (simp add: pending_after_timeout)
    qed
    from gate_step_keeps_resolved[OF st, of b] pb TimerFires
    have "map_of (pending s) b \<noteq> None" by auto
    from I[OF this] ne show ?thesis
      unfolding s' by (auto simp: timeout_callback_timers)
  next
    case (Button a ok)
    with st have s': "s' = resolveApproval a ok s" by (simp add: gate_step_def)
    from gate_step_keeps_resolved[OF st, of b] pb Button
    have "map_of (pending s) b \<noteq> None" by auto
    from I[OF this] show ?thesis unfolding s' by (simp add: resolveApproval_timers)
  next
    case ClearApprovals
    with st have s': "s' = clearApprovals s" by (simp add: gate_step_def)
    with pb I[of b] show ?thesis by (simp add: clearApprovals_def)
  next
    case Stop
    with st have s': "s' = stop s" by (simp add: gate_step_def)
    with pb show ?thesis by (simp add: pending_stop)
  qed
qed

lemma armed_run:
  "armed s \<Longrightarrow> gate_run cwd es (n, s) = Some (n', s') \<Longrightarrow> armed s'"
proof (induction es arbitrary: n s)
  case Nil
  then show ?case by simp
next
  case (Cons e es)
  from Cons.prems(2) obtain n1 s1 where st: "gate_step cwd e (n, s) = Some (n1, s1)"
    and rn: "gate_run cwd es (n1, s1) = Some (n', s')"
    by (auto split: option.splits)
  from Cons.IH[OF armed_step[OF Cons.prems(1) st] rn] show ?case .
qed

lemma armed_initial: "armed gate_initial"
  by (simp add: armed_def gate_initial_def)

text \<open>
  C4.  Let the gate have reached a state in which an approval is pending.  Nothing has
  been written on the response object it holds.  Its \<^verbatim>\<open>postMessage\<close> call is still to
  settle or its timer is armed; when the call settles, however it settles, the timer is
  armed.  When the timer fires the approval is pending no longer, and then, and after any
  further steps of the gate whatever, exactly one response stands written on that object:
  status 200, behaviour deny, message \<^verbatim>\<open>Permission request timed out\<close>.  Hence it is
  never answered with allow.
\<close>

theorem timed_out_denied_once:
  assumes reach: "gate_run cwd es (0, gate_initial) = Some (n, s)"
    and pend: "map_of (pending s) a = Some p"
  shows "answers (httpRes p) s = [] \<and>
         (a \<in> set (posting s) \<or> a \<in> set (timers s)) \<and>
         (\<forall>out. a \<in> set (posting s) \<longrightarrow>
            (\<exists>s1. gate_step cwd (PostSettled a out) (n, s) = Some (n, s1) \<and>
                  a \<in> set (timers s1))) \<and>
         (a \<in> set (timers s) \<longrightarrow>
            (\<exists>s1. gate_step cwd (TimerFires a) (n, s) = Some (n, s1) \<and>
                  map_of (pending s1) a = None \<and>
                  answers (httpRes p) s1 =
                    [deny_response (httpRes p) ''Permission request timed out''])) \<and>
         (\<forall>es' n' s'. gate_run cwd (TimerFires a # es') (n, s) = Some (n', s') \<longrightarrow>
            answers (httpRes p) s' =
              [deny_response (httpRes p) ''Permission request timed out''])"
proof -
  let ?deny = "[deny_response (httpRes p) ''Permission request timed out'']"
  from armed_run[OF armed_initial reach] pend
  have 1: "a \<in> set (posting s) \<or> a \<in> set (timers s)" by (simp add: armed_iff)
  have 2: "\<exists>s1. gate_step cwd (PostSettled a out) (n, s) = Some (n, s1) \<and> a \<in> set (timers s1)"
    if "a \<in> set (posting s)" for out
    using that by (simp add: gate_step_def postMessage_settled_timers)
  have 3: "answers (httpRes p) s' = ?deny"
    if "gate_run cwd (TimerFires a # es') (n, s) = Some (n', s')" for es' n' s'
    using timer_denies_once[OF reach pend that] by simp
  have 0: "answers (httpRes p) s = []"
  proof -
    from gate_inv_run[OF gate_inv_initial reach] have "gate_inv (n, s)" .
    with held_mem[OF pend] show ?thesis by (simp add: gate_inv_iff)
  qed
  have 4: "\<exists>s1. gate_step cwd (TimerFires a) (n, s) = Some (n, s1) \<and>
                map_of (pending s1) a = None \<and> answers (httpRes p) s1 = ?deny"
    if t: "a \<in> set (timers s)"
  proof -
    let ?s1 = "timeout_callback a (s\<lparr> timers := remove1 a (timers s) \<rparr>)"
    have st: "gate_step cwd (TimerFires a) (n, s) = Some (n, ?s1)"
      using t by (simp add: gate_step_def)
    then have "gate_run cwd (TimerFires a # []) (n, s) = Some (n, ?s1)" by simp
    from 3[OF this] st pending_after_timeout[of a "s\<lparr> timers := remove1 a (timers s) \<rparr>"]
    show ?thesis by blast
  qed
  from 0 1 2 3 4 show ?thesis by blast
qed

theorem timed_out_denied_once_witness:
  "gate_run ''/srv/app'' [Request (write_request ''/repo/x'' ''/repo'') ''a1'']
     (0, gate_initial) = Some (1, requested_example) \<and>
   map_of (pending requested_example) ''a1'' = Some (snd (hd (pending requested_example))) \<and>
   ''a1'' \<in> set (posting requested_example) \<and>
   (\<exists>s1. gate_step ''/srv/app'' (PostSettled ''a1'' (Posted None)) (1, requested_example)
            = Some (1, s1) \<and> ''a1'' \<in> set (timers s1)) \<and>
   (\<exists>s1. gate_step ''/srv/app'' (PostSettled ''a1'' PostFailed) (1, requested_example)
            = Some (1, s1) \<and> ''a1'' \<in> set (timers s1)) \<and>
   gate_run ''/srv/app''
     [Request (write_request ''/repo/x'' ''/repo'') ''a1'', PostSettled ''a1'' (Posted (Some ''17.1''))]
     (0, gate_initial) = Some (1, prompted_example) \<and>
   map_of (pending prompted_example) ''a1'' = Some (snd (hd (pending prompted_example))) \<and>
   ''a1'' \<in> set (timers prompted_example) \<and>
   gate_run ''/srv/app'' [TimerFires ''a1'', Button ''a1'' True, Stop] (1, prompted_example)
     = Some (1, timed_out_example) \<and>
   answers 0 prompted_example = [] \<and>
   answers 0 timed_out_example = [deny_response 0 ''Permission request timed out'']"
proof -
  have r0: "gate_run ''/srv/app'' [Request (write_request ''/repo/x'' ''/repo'') ''a1'']
     (0, gate_initial) = Some (1, requested_example)"
    by (simp add: gate_step_def handleRequest_def handlePermissionRequest_def write_request_def
          gate_initial_def requested_example_def isAutoApproved_def truthy_def)
  have p0: "map_of (pending requested_example) ''a1'' =
      Some (snd (hd (pending requested_example)))"
    by (simp add: requested_example_def)
  have po: "''a1'' \<in> set (posting requested_example)"
    by (simp add: requested_example_def)
  note T0 = timed_out_denied_once[OF r0 p0]
  from T0 po have a: "\<exists>s1. gate_step ''/srv/app'' (PostSettled ''a1'' (Posted None))
      (1, requested_example) = Some (1, s1) \<and> ''a1'' \<in> set (timers s1)"
    by blast
  from T0 po have b: "\<exists>s1. gate_step ''/srv/app'' (PostSettled ''a1'' PostFailed)
      (1, requested_example) = Some (1, s1) \<and> ''a1'' \<in> set (timers s1)"
    by blast
  have r1: "gate_run ''/srv/app''
     [Request (write_request ''/repo/x'' ''/repo'') ''a1'', PostSettled ''a1'' (Posted (Some ''17.1''))]
     (0, gate_initial) = Some (1, prompted_example)"
    by (simp add: gate_step_def handleRequest_def handlePermissionRequest_def write_request_def
          gate_initial_def prompted_example_def isAutoApproved_def truthy_def
          postMessage_settled_def)
  have p: "map_of (pending prompted_example) ''a1'' = Some (snd (hd (pending prompted_example)))"
    by (simp add: prompted_example_def)
  have t: "''a1'' \<in> set (timers prompted_example)"
    by (simp add: prompted_example_def)
  have r2: "gate_run ''/srv/app'' [TimerFires ''a1'', Button ''a1'' True, Stop] (1, prompted_example)
     = Some (1, timed_out_example)"
    by (simp add: gate_step_def prompted_example_def timed_out_example_def timeout_callback_def
          respond_def write_response_def resolveApproval_def stop_def deny_response_def)
  have h: "httpRes (snd (hd (pending prompted_example))) = 0"
    by (simp add: prompted_example_def)
  note T1 = timed_out_denied_once[OF r1 p]
  from T1 have n: "answers 0 prompted_example = []" unfolding h by (rule conjunct1)
  from T1 r2 have d: "answers 0 timed_out_example =
      [deny_response 0 ''Permission request timed out'']"
    unfolding h by blast
  from r0 p0 po a b r1 p t r2 n d show ?thesis by (intro conjI)
qed


section \<open>Properties of the containment test and of auto-approval\<close>

subsection \<open>Resolved paths\<close>


lemma split_on_nonempty: "split_on c xs \<noteq> []"
  by (induction xs) (auto split: list.splits)

lemma split_on_free: "seg \<in> set (split_on c xs) \<Longrightarrow> c \<notin> set seg"
  by (induction xs arbitrary: seg) (auto split: list.splits if_splits)

lemma split_on_append:
  "split_on c (xs @ c # ys) = split_on c xs @ split_on c ys"
proof (induction xs)
  case Nil
  then show ?case by simp
next
  case (Cons x xs)
  then show ?case
    using split_on_nonempty[of c xs] by (auto split: list.splits)
qed

lemma normalize_step_proper:
  "list_all proper_segment acc \<Longrightarrow> CHR ''/'' \<notin> set seg \<Longrightarrow>
   list_all proper_segment (normalize_step acc seg)"
  by (auto simp: normalize_step_def proper_segment_def list_all_iff dest: in_set_butlastD)

lemma normalize_proper:
  "list_all proper_segment acc \<Longrightarrow> (\<forall>seg \<in> set segs. CHR ''/'' \<notin> set seg) \<Longrightarrow>
   list_all proper_segment (foldl normalize_step acc segs)"
  by (induction segs arbitrary: acc) (simp_all add: normalize_step_proper)

lemma resolved_segments_proper: "list_all proper_segment (resolved_segments cwd p)"
  unfolding resolved_segments_def
  by (rule normalize_proper) (auto dest: split_on_free)


lemma slashed_simps [simp]:
  "slashed [] = []" "slashed (seg # segs) = CHR ''/'' # seg @ slashed segs"
  by (simp_all add: slashed_def)

lemma slashed_start: "slashed segs = [] \<or> hd (slashed segs) = CHR ''/''"
  by (cases segs) simp_all

lemma segment_boundary:
  assumes "CHR ''/'' \<notin> set d" "CHR ''/'' \<notin> set t" "v = [] \<or> hd v = CHR ''/''"
    and "prefix (d @ CHR ''/'' # u) (t @ v)"
  shows "d = t \<and> prefix (CHR ''/'' # u) v"
  using assms
proof (induction d arbitrary: t)
  case Nil
  show ?case
  proof (cases t)
    case Nil
    with Nil.prems show ?thesis by simp
  next
    case (Cons c t')
    with Nil.prems show ?thesis by auto
  qed
next
  case (Cons c d)
  show ?case
  proof (cases t)
    case Nil
    with Cons.prems show ?thesis by (cases v) auto
  next
    case (Cons c' t')
    with Cons.prems Cons.IH[of t'] show ?thesis by auto
  qed
qed

lemma segment_equal:
  assumes "CHR ''/'' \<notin> set d" "CHR ''/'' \<notin> set t" "u = [] \<or> hd u = CHR ''/''"
    "v = [] \<or> hd v = CHR ''/''" and "d @ u = t @ v"
  shows "d = t \<and> u = v"
  using assms
proof (induction d arbitrary: t)
  case Nil
  then show ?case by (cases t; cases u) auto
next
  case (Cons c d)
  show ?case
  proof (cases t)
    case Nil
    with Cons.prems show ?thesis by (cases v) auto
  next
    case (Cons c' t')
    with Cons.prems Cons.IH[of t'] show ?thesis by auto
  qed
qed

lemma slashed_inj:
  "\<forall>seg \<in> set ds. CHR ''/'' \<notin> set seg \<Longrightarrow> \<forall>seg \<in> set ts. CHR ''/'' \<notin> set seg \<Longrightarrow>
   slashed ds = slashed ts \<Longrightarrow> ds = ts"
proof (induction ds arbitrary: ts)
  case Nil
  then show ?case by (cases ts) auto
next
  case (Cons d ds)
  show ?case
  proof (cases ts)
    case Nil
    with Cons.prems show ?thesis by simp
  next
    case (Cons t ts')
    with Cons.prems have "d @ slashed ds = t @ slashed ts'" by simp
    from segment_equal[OF _ _ slashed_start slashed_start this] Cons.prems Cons
    have "d = t" "slashed ds = slashed ts'" by auto
    with Cons.IH[of ts'] Cons.prems Cons show ?thesis by auto
  qed
qed

lemma slashed_prefix:
  "\<forall>seg \<in> set ds. CHR ''/'' \<notin> set seg \<Longrightarrow> \<forall>seg \<in> set ts. CHR ''/'' \<notin> set seg \<Longrightarrow>
   prefix (slashed ds @ ''/'') (slashed ts) \<longleftrightarrow> strict_prefix ds ts"
proof (induction ds arbitrary: ts)
  case Nil
  then show ?case by (cases ts) auto
next
  case (Cons d ds)
  show ?case
  proof (cases ts)
    case Nil
    then show ?thesis by simp
  next
    case (Cons t ts')
    have start: "slashed ds @ ''/'' = CHR ''/'' # tl (slashed ds @ ''/'')"
      by (cases ds) simp_all
    have "prefix (d @ slashed ds @ ''/'') (t @ slashed ts') \<longleftrightarrow>
          d = t \<and> prefix (slashed ds @ ''/'') (slashed ts')"
    proof
      assume "prefix (d @ slashed ds @ ''/'') (t @ slashed ts')"
      then have "prefix (d @ CHR ''/'' # tl (slashed ds @ ''/'')) (t @ slashed ts')"
        using start by simp
      from segment_boundary[OF _ _ slashed_start this] Cons.prems Cons
      show "d = t \<and> prefix (slashed ds @ ''/'') (slashed ts')"
        using start by auto
    next
      assume "d = t \<and> prefix (slashed ds @ ''/'') (slashed ts')"
      then show "prefix (d @ slashed ds @ ''/'') (t @ slashed ts')" by simp
    qed
    with Cons.IH[of ts'] Cons.prems Cons show ?thesis by auto
  qed
qed

lemma join_absolute_slashed:
  "join_absolute segs = (if segs = [] then ''/'' else slashed segs)"
  by (simp add: join_absolute_def slashed_def)

lemma proper_free: "list_all proper_segment segs \<Longrightarrow> \<forall>seg \<in> set segs. CHR ''/'' \<notin> set seg"
  by (simp add: list_all_iff proper_segment_def)

lemma slashed_proper_second:
  "list_all proper_segment segs \<Longrightarrow> segs \<noteq> [] \<Longrightarrow>
   \<exists>c rest. slashed segs = CHR ''/'' # c # rest \<and> c \<noteq> CHR ''/''"
  by (cases segs; cases "hd segs") (auto simp: proper_segment_def)

lemma within_by_segments:
  assumes ds: "list_all proper_segment ds" and ts: "list_all proper_segment ts"
  shows "(join_absolute ts = join_absolute ds \<or> prefix (join_absolute ds @ ''/'') (join_absolute ts))
         \<longleftrightarrow> (if ds = [] then ts = [] else prefix ds ts)"
proof (cases "ds = []")
  case True
  show ?thesis
  proof (cases "ts = []")
    case True
    with \<open>ds = []\<close> show ?thesis by (simp add: join_absolute_slashed)
  next
    case False
    from slashed_proper_second[OF ts False] obtain c rest where
      "slashed ts = CHR ''/'' # c # rest" "c \<noteq> CHR ''/''" by blast
    with False \<open>ds = []\<close> show ?thesis by (simp add: join_absolute_slashed)
  qed
next
  case False
  from slashed_proper_second[OF ds False] obtain c rest where
    sd: "slashed ds = CHR ''/'' # c # rest" "c \<noteq> CHR ''/''" by blast
  show ?thesis
  proof (cases "ts = []")
    case True
    with False sd show ?thesis by (simp add: join_absolute_slashed)
  next
    case tne: False
    have "slashed ts = slashed ds \<longleftrightarrow> ts = ds"
      using slashed_inj[OF proper_free[OF ts] proper_free[OF ds]] by auto
    moreover have "prefix (slashed ds @ ''/'') (slashed ts) \<longleftrightarrow> strict_prefix ds ts"
      using slashed_prefix[OF proper_free[OF ds] proper_free[OF ts]] by simp
    ultimately show ?thesis using False tne
      by (auto simp: join_absolute_slashed strict_prefix_def)
  qed
qed

lemma isPathWithinDirectory_segments:
  "isPathWithinDirectory cwd t d \<longleftrightarrow>
     (if resolved_segments cwd d = [] then resolved_segments cwd t = []
      else prefix (resolved_segments cwd d) (resolved_segments cwd t))"
  using within_by_segments[OF resolved_segments_proper[of cwd d] resolved_segments_proper[of cwd t]]
  by (simp add: isPathWithinDirectory_def path_resolve_def path_sep_def Let_def)

lemma resolved_segments_parent:
  assumes "d \<noteq> []"
  shows "resolved_segments cwd (d @ ''/..'') = butlast (resolved_segments cwd d)"
proof -
  let ?full = "if hd d = CHR ''/'' then d else cwd @ ''/'' @ d"
  have "(if d @ ''/..'' \<noteq> [] \<and> hd (d @ ''/..'') = CHR ''/'' then d @ ''/..''
         else cwd @ ''/'' @ d @ ''/..'') = ?full @ CHR ''/'' # ''..''"
    using assms by simp
  moreover have "(if d \<noteq> [] \<and> hd d = CHR ''/'' then d else cwd @ ''/'' @ d) = ?full"
    using assms by simp
  ultimately show ?thesis
    unfolding resolved_segments_def
    by (simp only: split_on_append foldl_append) (simp add: normalize_step_def)
qed

lemma parent_not_within:
  assumes "d \<noteq> []" and "resolved_segments cwd d \<noteq> []"
  shows "\<not> isPathWithinDirectory cwd (d @ ''/..'') d"
proof -
  have "\<not> prefix (resolved_segments cwd d) (butlast (resolved_segments cwd d))"
  proof
    assume "prefix (resolved_segments cwd d) (butlast (resolved_segments cwd d))"
    from prefix_length_le[OF this]
    have "length (resolved_segments cwd d) \<le> length (resolved_segments cwd d) - 1"
      by (simp only: length_butlast)
    moreover from assms(2) have "0 < length (resolved_segments cwd d)" by simp
    ultimately show False by arith
  qed
  then show ?thesis
    using assms by (simp add: isPathWithinDirectory_segments resolved_segments_parent)
qed

lemma sibling_not_within:
  assumes "path_resolve cwd t = path_resolve cwd d @ ext" and "ext \<noteq> []"
    and "hd ext \<noteq> CHR ''/''"
  shows "\<not> isPathWithinDirectory cwd t d"
  using assms by (cases ext) (auto simp: isPathWithinDirectory_def path_sep_def Let_def)

lemma extract_truthy: "extractToolTargetPath tool inp = Some t \<Longrightarrow> truthy (Some t)"
  by (auto simp: extractToolTargetPath_def split: if_splits)

lemma isAutoApproved_iff:
  "isAutoApproved cwd tool inp d s \<longleftrightarrow>
     (d, tool) \<in> remembered s \<and>
     (case extractToolTargetPath tool inp of
        None \<Rightarrow> True
      | Some t \<Rightarrow> isPathWithinDirectory cwd t d)"
proof (cases "extractToolTargetPath tool inp")
  case None
  then show ?thesis
    by (auto simp: isAutoApproved_def remembered_def truthy_def split: option.splits)
next
  case (Some t)
  from extract_truthy[OF Some] Some show ?thesis
    by (auto simp: isAutoApproved_def remembered_def Let_def split: option.splits)
qed


text \<open>
  What the containment test does.  It holds exactly when the resolved target equals the
  resolved directory or begins with the resolved directory followed by the separator, a
  slash.  A target whose resolved path continues the resolved directory with anything but
  a slash, as \<^verbatim>\<open>/repo2/x\<close> continues \<^verbatim>\<open>/repo\<close>, fails it.  The resolved path is built
  from segments none of which is empty, \<^verbatim>\<open>.\<close> or \<^verbatim>\<open>..\<close>: for a directory other than
  the root the test holds exactly when the directory's segments are a prefix of the
  target's.  A request whose extracted target fails the test is not auto-approved.
\<close>

lemma containment_facts:
  "(isPathWithinDirectory cwd t d \<longleftrightarrow>
      path_resolve cwd t = path_resolve cwd d \<or>
      prefix (path_resolve cwd d @ path_sep) (path_resolve cwd t)) \<and>
   path_sep = ''/'' \<and>
   (path_resolve cwd t = path_resolve cwd d @ ext \<and> ext \<noteq> [] \<and> hd ext \<noteq> CHR ''/'' \<longrightarrow>
      \<not> isPathWithinDirectory cwd t d) \<and>
   \<not> isPathWithinDirectory cwd ''/repo2/x'' ''/repo'' \<and>
   path_resolve cwd t = join_absolute (resolved_segments cwd t) \<and>
   list_all proper_segment (resolved_segments cwd t) \<and>
   (resolved_segments cwd d \<noteq> [] \<longrightarrow>
      (isPathWithinDirectory cwd t d \<longleftrightarrow>
         prefix (resolved_segments cwd d) (resolved_segments cwd t))) \<and>
   (d \<noteq> [] \<and> resolved_segments cwd d \<noteq> [] \<longrightarrow>
      \<not> isPathWithinDirectory cwd (d @ ''/..'') d) \<and>
   \<not> isPathWithinDirectory cwd ''/repo/../etc/passwd'' ''/repo'' \<and>
   (extractToolTargetPath tool inp = Some t \<and> \<not> isPathWithinDirectory cwd t d \<longrightarrow>
      \<not> isAutoApproved cwd tool inp d s)"
proof -
  have 1: "isPathWithinDirectory cwd t d \<longleftrightarrow>
      path_resolve cwd t = path_resolve cwd d \<or>
      prefix (path_resolve cwd d @ path_sep) (path_resolve cwd t)"
    by (simp add: isPathWithinDirectory_def Let_def)
  have 2: "\<not> isPathWithinDirectory cwd ''/repo2/x'' ''/repo''"
    by (simp add: isPathWithinDirectory_def path_resolve_def resolved_segments_def
          normalize_step_def join_absolute_def path_sep_def)
  have 3: "\<not> isPathWithinDirectory cwd ''/repo/../etc/passwd'' ''/repo''"
    by (simp add: isPathWithinDirectory_def path_resolve_def resolved_segments_def
          normalize_step_def join_absolute_def path_sep_def)
  have 4: "resolved_segments cwd d \<noteq> [] \<longrightarrow>
      (isPathWithinDirectory cwd t d \<longleftrightarrow>
         prefix (resolved_segments cwd d) (resolved_segments cwd t))"
    by (simp add: isPathWithinDirectory_segments)
  have 5: "extractToolTargetPath tool inp = Some t \<and> \<not> isPathWithinDirectory cwd t d \<longrightarrow>
      \<not> isAutoApproved cwd tool inp d s"
    by (simp add: isAutoApproved_iff)
  show ?thesis
    using 1 2 3 4 5 sibling_not_within[of cwd t d ext] parent_not_within[of d cwd]
      resolved_segments_proper[of cwd t]
    by (simp add: path_sep_def path_resolve_def)
qed

subsection \<open>Auto-approval\<close>

text \<open>
  When a tool is remembered for a directory that does not resolve to the root, a request
  for the tool with that working directory and an extracted target is answered at once,
  with allow and nothing else, exactly when the target resolves to the directory or below
  it; otherwise an approval becomes pending and a prompt is posted.
\<close>

lemma auto_approval_below_proper_directory:
  assumes "(d, tool_name data) \<in> remembered s"
    and "working_directory data = Some d" and "d \<noteq> []"
    and "extractToolTargetPath (tool_name data) (request_input data) = Some t"
    and "resolved_segments cwd d \<noteq> []"
  shows "handlePermissionRequest cwd data res a s =
     (if prefix (resolved_segments cwd d) (resolved_segments cwd t)
      then s\<lparr> responses := responses s @
             [\<lparr> response_of = res, statusCode = 200,
                payload = Some (Allow, ''Auto-approved (previously approved for this directory)'') \<rparr>] \<rparr>
      else s\<lparr> pending :=
                AList.update a
                  \<lparr> httpRes = res, channel = request_channel data,
                    threadTs = thread_ts data, user = request_user data,
                    toolName = tool_name data, input = request_input data,
                    workingDirectory = Some d, messageTs = None \<rparr>
                  (pending s),
              prompts := prompts s @
                [\<lparr> prompt_approval = a,
                   prompt_channel =
                     (if request_channel data \<noteq> [] then request_channel data
                      else ''general''),
                   prompt_thread = thread_ts data,
                   prompt_tool = tool_name data,
                   prompt_directory = Some d \<rparr>],
              posting := posting s @ [a] \<rparr>)"
  using assms
  by (simp add: handlePermissionRequest_def isAutoApproved_iff isPathWithinDirectory_segments
        truthy_def write_response_def)

text \<open>
  C3.  Write is approved for the working directory \<^verbatim>\<open>/\<close>, and the approval is remembered.
  The next request asks to write \<^verbatim>\<open>/etc/passwd\<close> with the same working directory.  The
  target lies below the root (the root has no segments, the target has two), yet the
  containment test fails, because the resolved root with the separator appended is two
  slashes: the request is not answered, a second approval becomes pending and a second
  prompt is posted.
\<close>

theorem root_directory_never_auto_approved:
  "map_option
     (\<lambda>(n, s). (approvedTools s, map fst (pending s), map prompt_approval (prompts s),
                 map (\<lambda>r. (response_of r, payload r)) (responses s)))
     (gate_run cwd root_approval_events (0, gate_initial))
     = Some ([(''/'', [''Write''])], [''a2''], [''a1'', ''a2''],
             [(0, Some (Allow, ''Approved by user''))]) \<and>
   resolved_segments cwd ''/'' = [] \<and>
   resolved_segments cwd ''/etc/passwd'' = [''etc'', ''passwd''] \<and>
   path_resolve cwd ''/'' @ path_sep = ''//'' \<and>
   \<not> isPathWithinDirectory cwd ''/etc/passwd'' ''/''"
  by (simp add: root_approval_events_def gate_step_def handleRequest_def
        handlePermissionRequest_def write_request_def gate_initial_def isAutoApproved_def
        truthy_def postMessage_settled_def resolveApproval_def rememberApproval_def
        respond_def write_response_def extractToolTargetPath_def
        isPathWithinDirectory_def path_resolve_def resolved_segments_def
        normalize_step_def join_absolute_def path_sep_def)

text \<open>
  C10.  The target is resolved with the working directory of the process, not with the
  working directory of the request.  Let the process run in \<^verbatim>\<open>/home/u/projects/bot\<close>
  and let Write be approved for \<^verbatim>\<open>/home/u/projects\<close>.  A request to write \<^verbatim>\<open>../x\<close>
  with that working directory names \<^verbatim>\<open>/home/u/x\<close>, outside the directory, where the
  tool runs; the test resolves it to \<^verbatim>\<open>/home/u/projects/x\<close> and holds, and the request
  is answered with allow at once: no approval becomes pending and no prompt is posted.
\<close>

theorem relative_traversal_auto_approved:
  "map_option
     (\<lambda>(n, s). (approvedTools s, map fst (pending s), map prompt_approval (prompts s),
                 map (\<lambda>r. (response_of r, payload r)) (responses s)))
     (gate_run ''/home/u/projects/bot'' traversal_events (0, gate_initial))
     = Some ([(''/home/u/projects'', [''Write''])], [], [''a1''],
             [(0, Some (Allow, ''Approved by user'')),
              (1, Some (Allow, ''Auto-approved (previously approved for this directory)''))]) \<and>
   path_resolve ''/home/u/projects'' ''../x'' = ''/home/u/x'' \<and>
   path_resolve ''/home/u/projects/bot'' ''../x'' = ''/home/u/projects/x'' \<and>
   \<not> isPathWithinDirectory ''/home/u/projects/bot'' ''/home/u/x'' ''/home/u/projects'' \<and>
   isPathWithinDirectory ''/home/u/projects/bot'' ''../x'' ''/home/u/projects''"
  by (simp add: traversal_events_def gate_step_def handleRequest_def
        handlePermissionRequest_def write_request_def gate_initial_def isAutoApproved_def
        truthy_def postMessage_settled_def resolveApproval_def rememberApproval_def
        respond_def write_response_def extractToolTargetPath_def
        isPathWithinDirectory_def path_resolve_def resolved_segments_def
        normalize_step_def join_absolute_def path_sep_def)

end
